theory Spec2Isabelle
  imports Main "HOL-Library.AList"
begin

section \<open>Data model\<close>

text \<open>
  The buffer lifecycle layer of \<^verbatim>\<open>MainWindow.cpp\<close>: the window controller's operations
  (new, open, save, close, rename, reload, batch close, window close) over the buffer
  registry (\<^verbatim>\<open>BufferManager\<close>), the tab ordering (\<^verbatim>\<open>TabbedEditor\<close>) and the buffers
  (\<^verbatim>\<open>ScintillaBuffer\<close>). Widget refreshes (\<^verbatim>\<open>updateGui\<close> and its callees, the status
  bar, the recent files menu, \<^verbatim>\<open>qInfo\<close>) change nothing of this state and are left out.

  A \<^verbatim>\<open>ScintillaBuffer *\<close> is a natural number; the registry maps the pointers it owns
  to the objects. An operation that dereferences a null or dangling pointer has no
  result (\<open>None\<close>). Indices are C++ \<^verbatim>\<open>int\<close>s, with \<open>-1\<close> for
  \<^verbatim>\<open>TabbedEditor::INVALID_INDEX\<close>. File paths are taken as canonical.
\<close>

datatype BufferStateChange = NoChange | Modified | Deleted | Restored

datatype StandardButton = Yes | No | Save | Discard | Cancel

text \<open>The calls made into the registry, in order: a trace kept beside the state.\<close>

datatype call =
    CreateEmptyBuffer string
  | CreateBufferFromFile string
  | SaveBuffer nat
  | SaveBufferAs nat string
  | RenameBuffer nat string
  | ReloadBuffer nat
  | CloseBuffer nat

record ScintillaBuffer =
  name :: string
  fileInfo :: "string option"
  savePoint :: bool
  content :: string
  modifiedTime :: "nat option"

text \<open>
  The window with its collaborators. \<open>buffers\<close> is the registry, \<open>tabs\<close> and \<open>cur\<close>
  the tab ordering and the current index, \<open>newCount\<close> the static counter of
  \<^verbatim>\<open>newFile\<close>, \<open>connSwitched\<close> and \<open>connAllClosed\<close> the two signal connections that
  \<^verbatim>\<open>closeEvent\<close> disconnects. The environment: \<open>disk\<close> (content and modification time
  of each file), \<open>clock\<close>, which reads and writes fail, and the answers the user gives to
  the message boxes (\<open>answers\<close>, the \<open>asked\<close>-th next) and to the save-file dialogs
  (\<open>fileNames\<close>, the \<open>chosen\<close>-th next; the empty name is a dismissed dialog).
\<close>

record MainWindow =
  buffers :: "(nat \<times> ScintillaBuffer) list"
  nextPtr :: nat
  tabs :: "nat list"
  cur :: int
  newCount :: nat
  connSwitched :: bool
  connAllClosed :: bool
  disk :: "string \<rightharpoonup> (string \<times> nat)"
  clock :: nat
  readFails :: "string \<Rightarrow> bool"
  writeFails :: "string \<Rightarrow> bool"
  answers :: "nat \<Rightarrow> StandardButton"
  asked :: nat
  fileNames :: "nat \<Rightarrow> string"
  chosen :: nat
  calls :: "call list"

section \<open>ScintillaBuffer and BufferManager\<close>

text \<open>
  Modelled from the spec: the \<^verbatim>\<open>ScintillaBuffer\<close> class is not in the source file. A
  buffer is "file-backed" when it has an associated path, and it is "at save-point" when it
  has no edits since the last save, load or reload.
\<close>

definition isFile :: "ScintillaBuffer \<Rightarrow> bool" where
  "isFile buf = (fileInfo buf \<noteq> None)"

definition is_save_point :: "ScintillaBuffer \<Rightarrow> bool" where
  "is_save_point buf = savePoint buf"

text \<open>
  Modelled from the spec: \<^verbatim>\<open>ScintillaBuffer::checkForBufferStateChange\<close> is not in the
  source file. "checkExternalState(buffer) -> {NoChange, Modified, Deleted, Restored}:
  compares on-disk state to the last snapshot taken at open/save/reload time; pure query,
  no mutation." The snapshot is the modification time (\<open>None\<close>: the file was missing).
\<close>

definition checkForBufferStateChange :: "ScintillaBuffer \<Rightarrow> MainWindow \<Rightarrow> BufferStateChange" where
  "checkForBufferStateChange buf s =
     (case fileInfo buf of
        None \<Rightarrow> NoChange
      | Some p \<Rightarrow>
          (case modifiedTime buf of
             Some t \<Rightarrow>
               (case disk s p of
                  None \<Rightarrow> Deleted
                | Some f \<Rightarrow> if snd f = t then NoChange else Modified)
           | None \<Rightarrow>
               (case disk s p of
                  None \<Rightarrow> NoChange
                | Some f \<Rightarrow> Restored)))"

text \<open>
  Modelled from the spec: \<^verbatim>\<open>BufferManager::reloadBuffer\<close> is not in the source file.
  "reload(buffer): re-reads from disk, discarding in-memory edits; only valid for
  file-backed Buffers." Where there is nothing to read the buffer is left as it is; the
  call is recorded in every case.
\<close>

definition reloadBuffer :: "nat \<Rightarrow> MainWindow \<Rightarrow> MainWindow option" where
  "reloadBuffer b s =
     (case map_of (buffers s) b of
        None \<Rightarrow> None
      | Some buf \<Rightarrow>
          (case fileInfo buf of
             None \<Rightarrow> Some (s\<lparr>calls := calls s @ [ReloadBuffer b]\<rparr>)
           | Some p \<Rightarrow>
               (case disk s p of
                  None \<Rightarrow> Some (s\<lparr>calls := calls s @ [ReloadBuffer b]\<rparr>)
                | Some f \<Rightarrow>
                    if readFails s p then Some (s\<lparr>calls := calls s @ [ReloadBuffer b]\<rparr>)
                    else Some (s\<lparr>buffers := AList.update b
                                   (buf\<lparr>savePoint := True, content := fst f,
                                        modifiedTime := Some (snd f)\<rparr>) (buffers s),
                                 calls := calls s @ [ReloadBuffer b]\<rparr>))))"

text \<open>
  Modelled from the spec: \<^verbatim>\<open>BufferManager::getBufferByFilePath\<close> is not in the source
  file. The registry "maintains a mapping from canonical file path to Buffer for
  file-backed buffers": the lookup is the first registered buffer with that path, so that
  the collision a save-as or a rename "may produce" can be represented.
\<close>

definition getBufferByFilePath :: "string \<Rightarrow> MainWindow \<Rightarrow> nat option" where
  "getBufferByFilePath p s =
     map_option fst (find (\<lambda>e. fileInfo (snd e) = Some p) (buffers s))"

section \<open>External-modification reconciliation\<close>

text \<open>\<^verbatim>\<open>MainWindow::checkBufferForModification\<close>, lines 1550-1571.\<close>

definition checkBufferForModification :: "nat \<Rightarrow> MainWindow \<Rightarrow> (bool \<times> MainWindow) option" where
  "checkBufferForModification b s =
     (case map_of (buffers s) b of
        None \<Rightarrow> None
      | Some buf \<Rightarrow>
          (let state = checkForBufferStateChange buf s in
           if state = NoChange then Some (False, s)
           else if state = Modified then
             (case reloadBuffer b s of None \<Rightarrow> None | Some s' \<Rightarrow> Some (True, s'))
           else if state = Deleted then Some (True, s)
           else if state = Restored then Some (True, s)
           else Some (True, s)))"

text \<open>
  \<^verbatim>\<open>MainWindow::bufferActivated\<close>, lines 1439-1443: the check, then \<^verbatim>\<open>updateGui\<close>, which
  refreshes widgets only.
\<close>

definition bufferActivated :: "nat \<Rightarrow> MainWindow \<Rightarrow> MainWindow option" where
  "bufferActivated b s = map_option snd (checkBufferForModification b s)"

text \<open>
  The signal \<^verbatim>\<open>TabbedEditor::bufferSwitched\<close>: the constructor connects it to
  \<^verbatim>\<open>bufferActivated\<close> (line 117), \<^verbatim>\<open>closeEvent\<close> disconnects it (line 1590).
\<close>

definition bufferSwitched :: "nat \<Rightarrow> MainWindow \<Rightarrow> MainWindow option" where
  "bufferSwitched b s = (if connSwitched s then bufferActivated b s else Some s)"

section \<open>TabbedEditor\<close>

text \<open>
  Modelled from the spec: the \<^verbatim>\<open>TabbedEditor\<close> class is not in the source file. Its state
  is an "ordered sequence of Buffer references + current index"; an index out of range
  gives the null pointer, and a buffer that has no tab has the index \<open>- 1\<close>.
\<close>

definition count :: "MainWindow \<Rightarrow> int" where
  "count s = int (length (tabs s))"

definition currentIndex :: "MainWindow \<Rightarrow> int" where
  "currentIndex s = cur s"

definition getBufferFromIndex :: "int \<Rightarrow> MainWindow \<Rightarrow> nat option" where
  "getBufferFromIndex i s =
     (if 0 \<le> i \<and> i < count s then Some (tabs s ! nat i) else None)"

definition getCurrentBuffer :: "MainWindow \<Rightarrow> nat option" where
  "getCurrentBuffer s = getBufferFromIndex (currentIndex s) s"

fun indexOf :: "nat list \<Rightarrow> nat \<Rightarrow> int" where
  "indexOf [] b = - 1"
| "indexOf (x # xs) b =
     (if x = b then 0 else (let r = indexOf xs b in if r < 0 then - 1 else r + 1))"

definition getIndexFromBuffer :: "nat \<Rightarrow> MainWindow \<Rightarrow> int" where
  "getIndexFromBuffer b s = indexOf (tabs s) b"

text \<open>
  Modelled from the spec: "switchTo(index | buffer): sets current pointer; emits
  "switched" with the newly current Buffer. Fails silently (no-op) if index out of range."
\<close>

definition switchToIndex :: "int \<Rightarrow> MainWindow \<Rightarrow> MainWindow option" where
  "switchToIndex i s =
     (if 0 \<le> i \<and> i < count s then bufferSwitched (tabs s ! nat i) (s\<lparr>cur := i\<rparr>)
      else Some s)"

definition switchToBuffer :: "nat \<Rightarrow> MainWindow \<Rightarrow> MainWindow option" where
  "switchToBuffer b s = switchToIndex (getIndexFromBuffer b s) s"

text \<open>
  Modelled from the spec: "addBuffer(buffer): appends at the end; becomes current only if
  it is the first buffer or caller explicitly switches."
\<close>

definition addBuffer :: "nat \<Rightarrow> MainWindow \<Rightarrow> MainWindow" where
  "addBuffer b s = s\<lparr>tabs := tabs s @ [b], cur := (if tabs s = [] then 0 else cur s)\<rparr>"

text \<open>
  Modelled from the spec: \<^verbatim>\<open>BufferManager::createEmtpyBuffer\<close> is not in the source file.
  "createEmpty(name) -> Buffer: allocates a new unsaved Buffer with a generated ordinal
  display name; never fails." The "created" event reaches \<^verbatim>\<open>TabbedEditor::addBuffer\<close>
  (line 548).
\<close>

definition createEmtpyBuffer :: "string \<Rightarrow> MainWindow \<Rightarrow> MainWindow" where
  "createEmtpyBuffer nm s =
     addBuffer (nextPtr s)
       (s\<lparr>buffers := buffers s @
              [(nextPtr s, \<lparr>name = nm, fileInfo = None, savePoint = True, content = [],
                           modifiedTime = None\<rparr>)],
          nextPtr := nextPtr s + 1,
          calls := calls s @ [CreateEmptyBuffer nm]\<rparr>)"

text \<open>\<^verbatim>\<open>QString::arg\<close> on an \<^verbatim>\<open>int\<close>: the decimal numeral.\<close>

fun decimal :: "nat \<Rightarrow> string" where
  "decimal n =
     (if n < 10 then [''0123456789'' ! n]
      else decimal (n div 10) @ [''0123456789'' ! (n mod 10)])"

declare decimal.simps [simp del]

section \<open>MainWindow: new file\<close>

text \<open>\<^verbatim>\<open>MainWindow::newFile\<close>, lines 797-806.\<close>

definition newFile :: "MainWindow \<Rightarrow> MainWindow option" where
  "newFile s =
     (let s1 = createEmtpyBuffer (''New '' @ decimal (newCount s))
                 (s\<lparr>newCount := newCount s + 1\<rparr>)
      in switchToIndex (count s1 - 1) s1)"

text \<open>
  The signal \<^verbatim>\<open>TabbedEditor::allBuffersClosed\<close>: the constructor connects it to
  \<^verbatim>\<open>newFile\<close> (lines 119-120), \<^verbatim>\<open>closeEvent\<close> disconnects it (line 1592).
\<close>

definition allBuffersClosed :: "MainWindow \<Rightarrow> MainWindow option" where
  "allBuffersClosed s = (if connAllClosed s then newFile s else Some s)"

text \<open>
  Modelled from the spec: "removeBuffer(buffer): removes from sequence; if it was current,
  current becomes the nearest remaining neighbor (prefer same index, else decrement); if
  sequence becomes empty, emits "all closed"". A removal to the left of the current tab
  moves the current index with its buffer (the loop of \<^verbatim>\<open>closeAllToLeft\<close> counts on it).
\<close>

definition removeBuffer :: "nat \<Rightarrow> MainWindow \<Rightarrow> MainWindow option" where
  "removeBuffer b s =
     (let k = getIndexFromBuffer b s in
      if k < 0 then Some s
      else
        (let ts = remove1 b (tabs s);
             c = (if k < cur s then cur s - 1
                  else if k = cur s then (if cur s < int (length ts) then cur s else cur s - 1)
                  else cur s);
             s1 = s\<lparr>tabs := ts, cur := c\<rparr>
         in if ts = [] then allBuffersClosed s1
            else if k = cur s then bufferSwitched (ts ! nat c) s1
            else Some s1))"

text \<open>
  Modelled from the spec: \<^verbatim>\<open>BufferManager::closeBuffer\<close> is not in the source file.
  "close(buffer): removes from registry and path index, destroys the Buffer, emits
  "closed" event. Unconditional." The event reaches \<^verbatim>\<open>TabbedEditor::removeBuffer\<close>
  (line 549).
\<close>

definition closeBuffer :: "nat \<Rightarrow> MainWindow \<Rightarrow> MainWindow option" where
  "closeBuffer b s =
     (case map_of (buffers s) b of
        None \<Rightarrow> None
      | Some buf \<Rightarrow>
          removeBuffer b (s\<lparr>buffers := AList.delete b (buffers s),
                            calls := calls s @ [CloseBuffer b]\<rparr>))"

text \<open>
  Modelled from the spec: \<^verbatim>\<open>BufferManager::createBufferFromFile\<close> is not in the source
  file. "createFromFile(path) -> Buffer | Error(NotFound, ReadFailure): if path already
  open, returns the existing Buffer (idempotent); otherwise reads content, constructs a
  file-backed Buffer, registers it by canonical path. Emits a "created" event." The error
  result of a function returning \<^verbatim>\<open>ScintillaBuffer *\<close> is the null pointer; for which
  paths the errors arise is the environment's \<open>readFails\<close>. \<^verbatim>\<open>openFileList\<close> calls it on
  a path that is not on the disk once the user agrees to create the file: the buffer then
  starts empty, with no snapshot.
\<close>

definition createBufferFromFile :: "string \<Rightarrow> MainWindow \<Rightarrow> nat option \<times> MainWindow" where
  "createBufferFromFile p s =
     (case getBufferByFilePath p s of
        Some b \<Rightarrow> (Some b, s\<lparr>calls := calls s @ [CreateBufferFromFile p]\<rparr>)
      | None \<Rightarrow>
          if readFails s p then (None, s\<lparr>calls := calls s @ [CreateBufferFromFile p]\<rparr>)
          else (Some (nextPtr s),
                addBuffer (nextPtr s)
                  (s\<lparr>buffers := buffers s @
                         [(nextPtr s,
                           \<lparr>name = p, fileInfo = Some p, savePoint = True,
                            content = (case disk s p of None \<Rightarrow> [] | Some f \<Rightarrow> fst f),
                            modifiedTime = map_option snd (disk s p)\<rparr>)],
                     nextPtr := nextPtr s + 1,
                     calls := calls s @ [CreateBufferFromFile p]\<rparr>)))"

text \<open>
  Modelled from the spec: \<^verbatim>\<open>BufferManager::saveBuffer\<close> is not in the source file.
  "save(buffer) -> bool: no-op success if already at save-point; if not file-backed,
  signals caller to request a path; otherwise writes content to the existing path, updates
  save-point and modification snapshot. Returns false on write failure."
\<close>

definition saveBuffer :: "nat \<Rightarrow> MainWindow \<Rightarrow> (bool \<times> MainWindow) option" where
  "saveBuffer b s =
     (case map_of (buffers s) b of
        None \<Rightarrow> None
      | Some buf \<Rightarrow>
          if savePoint buf then Some (True, s\<lparr>calls := calls s @ [SaveBuffer b]\<rparr>)
          else
            (case fileInfo buf of
               None \<Rightarrow> Some (False, s\<lparr>calls := calls s @ [SaveBuffer b]\<rparr>)
             | Some p \<Rightarrow>
                 if writeFails s p then Some (False, s\<lparr>calls := calls s @ [SaveBuffer b]\<rparr>)
                 else Some (True,
                   s\<lparr>buffers := AList.update b
                          (buf\<lparr>savePoint := True, modifiedTime := Some (clock s)\<rparr>) (buffers s),
                      disk := (disk s)(p \<mapsto> (content buf, clock s)),
                      clock := clock s + 1,
                      calls := calls s @ [SaveBuffer b]\<rparr>)))"

text \<open>
  Modelled from the spec: \<^verbatim>\<open>BufferManager::saveBufferAs\<close> is not in the source file.
  "saveAs(buffer, newPath) -> bool: writes to newPath, re-associates the Buffer with that
  path (removing old path mapping if present), updates save-point. May produce a path
  collision with another open Buffer - caller is responsible for resolving."
\<close>

definition saveBufferAs :: "nat \<Rightarrow> string \<Rightarrow> MainWindow \<Rightarrow> (bool \<times> MainWindow) option" where
  "saveBufferAs b p s =
     (case map_of (buffers s) b of
        None \<Rightarrow> None
      | Some buf \<Rightarrow>
          if writeFails s p then Some (False, s\<lparr>calls := calls s @ [SaveBufferAs b p]\<rparr>)
          else Some (True,
            s\<lparr>buffers := AList.update b
                   (buf\<lparr>fileInfo := Some p, savePoint := True,
                        modifiedTime := Some (clock s)\<rparr>) (buffers s),
               disk := (disk s)(p \<mapsto> (content buf, clock s)),
               clock := clock s + 1,
               calls := calls s @ [SaveBufferAs b p]\<rparr>))"

text \<open>
  Modelled from the spec: \<^verbatim>\<open>BufferManager::renameBuffer\<close> is not in the source file.
  "rename(buffer, newPath) -> bool: same as saveAs semantically for the purposes of path
  re-indexing, distinguished only by caller intent." The file moves: the old path leaves
  the disk.
\<close>

definition renameBuffer :: "nat \<Rightarrow> string \<Rightarrow> MainWindow \<Rightarrow> (bool \<times> MainWindow) option" where
  "renameBuffer b p s =
     (case map_of (buffers s) b of
        None \<Rightarrow> None
      | Some buf \<Rightarrow>
          if writeFails s p then Some (False, s\<lparr>calls := calls s @ [RenameBuffer b p]\<rparr>)
          else Some (True,
            s\<lparr>buffers := AList.update b
                   (buf\<lparr>fileInfo := Some p, savePoint := True,
                        modifiedTime := Some (clock s)\<rparr>) (buffers s),
               disk := (case fileInfo buf of
                          None \<Rightarrow> (disk s)(p \<mapsto> (content buf, clock s))
                        | Some old \<Rightarrow> ((disk s)(old := None))(p \<mapsto> (content buf, clock s))),
               clock := clock s + 1,
               calls := calls s @ [RenameBuffer b p]\<rparr>))"

section \<open>MainWindow: save\<close>

text \<open>\<^verbatim>\<open>MainWindow::isInInitialState\<close>, lines 809-817.\<close>

definition isInInitialState :: "MainWindow \<Rightarrow> bool option" where
  "isInInitialState s =
     (if count s = 1 then
        (case getBufferFromIndex 0 s of
           None \<Rightarrow> None
         | Some buffer \<Rightarrow>
             (case map_of (buffers s) buffer of
                None \<Rightarrow> None
              | Some buf \<Rightarrow> Some (\<not> isFile buf \<and> is_save_point buf)))
      else Some False)"

text \<open>\<^verbatim>\<open>MainWindow::saveFileAs\<close>, lines 1180-1187.\<close>

definition saveFileAs :: "nat \<Rightarrow> string \<Rightarrow> MainWindow \<Rightarrow> (bool \<times> MainWindow) option" where
  "saveFileAs buffer fileName s = saveBufferAs buffer fileName s"

text \<open>
  \<^verbatim>\<open>MainWindow::saveCurrentFileAsDialog\<close>, lines 1139-1167. The file chooser's answer is
  the next of \<open>fileNames\<close>.
\<close>

definition saveCurrentFileAsDialog :: "MainWindow \<Rightarrow> (bool \<times> MainWindow) option" where
  "saveCurrentFileAsDialog s =
     (case getCurrentBuffer s of
        None \<Rightarrow> None
      | Some buffer \<Rightarrow>
          (case map_of (buffers s) buffer of
             None \<Rightarrow> None
           | Some buf \<Rightarrow>
               (let fileName = fileNames s (chosen s);
                    s1 = s\<lparr>chosen := chosen s + 1\<rparr>
                in if length fileName = 0 then Some (False, s1)
                   else saveFileAs buffer fileName s1)))"

text \<open>\<^verbatim>\<open>MainWindow::saveFile(ScintillaBuffer *)\<close>, lines 1099-1117.\<close>

definition saveFile :: "nat \<Rightarrow> MainWindow \<Rightarrow> (bool \<times> MainWindow) option" where
  "saveFile buffer s =
     (case map_of (buffers s) buffer of
        None \<Rightarrow> None
      | Some buf \<Rightarrow>
          if is_save_point buf then Some (True, s)
          else if \<not> isFile buf then
            (case switchToBuffer buffer s of
               None \<Rightarrow> None
             | Some s1 \<Rightarrow> saveCurrentFileAsDialog s1)
          else
            (case saveBuffer buffer s of
               None \<Rightarrow> None
             | Some r \<Rightarrow> if fst r then Some (True, snd r) else Some (False, snd r)))"

section \<open>MainWindow: close\<close>

text \<open>\<^verbatim>\<open>MainWindow::closeFile\<close>, lines 977-1010.\<close>

definition closeFile :: "int \<Rightarrow> MainWindow \<Rightarrow> MainWindow option" where
  "closeFile index s =
     (case isInInitialState s of
        None \<Rightarrow> None
      | Some initial \<Rightarrow>
          if initial then Some s
          else
            (case getBufferFromIndex index s of
               None \<Rightarrow> None
             | Some buffer \<Rightarrow>
                 (case map_of (buffers s) buffer of
                    None \<Rightarrow> None
                  | Some buf \<Rightarrow>
                      if is_save_point buf then closeBuffer buffer s
                      else
                        (case switchToIndex index s of
                           None \<Rightarrow> None
                         | Some s1 \<Rightarrow>
                             (let reply = answers s1 (asked s1);
                                  s2 = s1\<lparr>asked := asked s1 + 1\<rparr>
                              in if reply = Cancel then Some s2
                                 else if reply = Save then
                                   (case saveFile buffer s2 of
                                      None \<Rightarrow> None
                                    | Some r \<Rightarrow>
                                        if fst r = False then Some (snd r)
                                        else closeBuffer buffer (snd r))
                                 else closeBuffer buffer s2)))))"

text \<open>\<^verbatim>\<open>MainWindow::closeCurrentFile\<close>, lines 972-975.\<close>

definition closeCurrentFile :: "MainWindow \<Rightarrow> MainWindow option" where
  "closeCurrentFile s = closeFile (currentIndex s) s"

text \<open>
  \<^verbatim>\<open>MainWindow::checkBuffersBeforeClose\<close>, lines 868-898: the loop from \<open>i\<close> (the start
  index at the call) up to \<open>endIndex\<close>.
\<close>

function checkBuffersBeforeClose :: "int \<Rightarrow> int \<Rightarrow> MainWindow \<Rightarrow> (bool \<times> MainWindow) option" where
  "checkBuffersBeforeClose i endIndex s =
     (if i < endIndex then
        (case getBufferFromIndex i s of
           None \<Rightarrow> None
         | Some buffer \<Rightarrow>
             (case map_of (buffers s) buffer of
                None \<Rightarrow> None
              | Some buf \<Rightarrow>
                  if \<not> is_save_point buf then
                    (case switchToIndex i s of
                       None \<Rightarrow> None
                     | Some s1 \<Rightarrow>
                         if answers s1 (asked s1) = Cancel then
                           Some (False, s1\<lparr>asked := asked s1 + 1\<rparr>)
                         else if answers s1 (asked s1) = Save then
                           (case saveFile buffer (s1\<lparr>asked := asked s1 + 1\<rparr>) of
                              None \<Rightarrow> None
                            | Some r \<Rightarrow>
                                if fst r = False then Some (False, snd r)
                                else checkBuffersBeforeClose (i + 1) endIndex (snd r))
                         else checkBuffersBeforeClose (i + 1) endIndex
                                (s1\<lparr>asked := asked s1 + 1\<rparr>))
                  else checkBuffersBeforeClose (i + 1) endIndex s))
      else Some (True, s))"
  by pat_completeness auto
termination
  by (relation "measure (\<lambda>(i, endIndex, s). nat (endIndex - i))") auto

declare checkBuffersBeforeClose.simps [simp del]

text \<open>
  \<^verbatim>\<open>MainWindow::closeAllFiles\<close>, lines 1012-1025: the closing loop from \<open>index\<close> down to
  0, then the whole function.
\<close>

function closeAllFiles_loop :: "int \<Rightarrow> MainWindow \<Rightarrow> MainWindow option" where
  "closeAllFiles_loop index s =
     (if index \<ge> 0 then
        (case getBufferFromIndex index s of
           None \<Rightarrow> None
         | Some buffer \<Rightarrow>
             (case closeBuffer buffer s of
                None \<Rightarrow> None
              | Some s1 \<Rightarrow> closeAllFiles_loop (index - 1) s1))
      else Some s)"
  by pat_completeness auto
termination
  by (relation "measure (\<lambda>(index, s). nat (index + 1))") auto

declare closeAllFiles_loop.simps [simp del]

definition closeAllFiles :: "bool \<Rightarrow> MainWindow \<Rightarrow> MainWindow option" where
  "closeAllFiles forceClose s =
     (case (if \<not> forceClose then checkBuffersBeforeClose 0 (count s) s else Some (True, s)) of
        None \<Rightarrow> None
      | Some r \<Rightarrow>
          if \<not> fst r then Some (snd r)
          else
            (case switchToIndex (count (snd r) - 1) (snd r) of
               None \<Rightarrow> None
             | Some s1 \<Rightarrow> closeAllFiles_loop (count s1 - 1) s1))"

text \<open>
  \<^verbatim>\<open>MainWindow::closeAllExceptActive\<close>, lines 1027-1050: the \<^verbatim>\<open>while\<close> loop, then the
  whole function. The pointer \<open>currentBuffer\<close> is only compared, never dereferenced.
\<close>

partial_function (option) closeAllExceptActive_loop ::
  "nat option \<Rightarrow> int \<Rightarrow> MainWindow \<Rightarrow> MainWindow option" where
  "closeAllExceptActive_loop currentBuffer i s =
     (if count s > 1 then
        (case getBufferFromIndex i s of
           None \<Rightarrow> None
         | Some buffer \<Rightarrow>
             if Some buffer = currentBuffer then
               closeAllExceptActive_loop currentBuffer (i + 1) s
             else
               (case closeBuffer buffer s of
                  None \<Rightarrow> None
                | Some s1 \<Rightarrow> closeAllExceptActive_loop currentBuffer i s1))
      else Some s)"

definition closeAllExceptActive :: "MainWindow \<Rightarrow> MainWindow option" where
  "closeAllExceptActive s =
     (case checkBuffersBeforeClose 0 (currentIndex s) s of
        None \<Rightarrow> None
      | Some r \<Rightarrow>
          if \<not> fst r then Some (snd r)
          else
            (case checkBuffersBeforeClose (currentIndex s + 1) (count (snd r)) (snd r) of
               None \<Rightarrow> None
             | Some r2 \<Rightarrow>
                 if \<not> fst r2 then Some (snd r2)
                 else closeAllExceptActive_loop (getCurrentBuffer s) 0 (snd r2)))"

text \<open>\<^verbatim>\<open>MainWindow::closeAllToLeft\<close>, lines 1052-1068.\<close>

partial_function (option) closeAllToLeft_loop :: "MainWindow \<Rightarrow> MainWindow option" where
  "closeAllToLeft_loop s =
     (if currentIndex s > 0 then
        (case getBufferFromIndex 0 s of
           None \<Rightarrow> None
         | Some buffer \<Rightarrow>
             (case closeBuffer buffer s of
                None \<Rightarrow> None
              | Some s1 \<Rightarrow> closeAllToLeft_loop s1))
      else Some s)"

definition closeAllToLeft :: "MainWindow \<Rightarrow> MainWindow option" where
  "closeAllToLeft s =
     (case checkBuffersBeforeClose 0 (currentIndex s) s of
        None \<Rightarrow> None
      | Some r \<Rightarrow>
          if \<not> fst r then Some (snd r)
          else
            (case switchToIndex (currentIndex s) (snd r) of
               None \<Rightarrow> None
             | Some s1 \<Rightarrow> closeAllToLeft_loop s1))"

text \<open>\<^verbatim>\<open>MainWindow::closeAllToRight\<close>, lines 1070-1086.\<close>

partial_function (option) closeAllToRight_loop :: "int \<Rightarrow> MainWindow \<Rightarrow> MainWindow option" where
  "closeAllToRight_loop curIndex s =
     (if curIndex < count s - 1 then
        (case getBufferFromIndex (curIndex + 1) s of
           None \<Rightarrow> None
         | Some buffer \<Rightarrow>
             (case closeBuffer buffer s of
                None \<Rightarrow> None
              | Some s1 \<Rightarrow> closeAllToRight_loop curIndex s1))
      else Some s)"

definition closeAllToRight :: "MainWindow \<Rightarrow> MainWindow option" where
  "closeAllToRight s =
     (case checkBuffersBeforeClose (currentIndex s) (count s) s of
        None \<Rightarrow> None
      | Some r \<Rightarrow>
          if \<not> fst r then Some (snd r)
          else
            (case switchToIndex (currentIndex s) (snd r) of
               None \<Rightarrow> None
             | Some s1 \<Rightarrow> closeAllToRight_loop (currentIndex s) s1))"

text \<open>
  \<^verbatim>\<open>MainWindow::closeEvent\<close>, lines 1582-1604. The result says whether the event was
  accepted.
\<close>

definition closeEvent :: "MainWindow \<Rightarrow> (bool \<times> MainWindow) option" where
  "closeEvent s =
     (case checkBuffersBeforeClose 0 (count s) s of
        None \<Rightarrow> None
      | Some r \<Rightarrow>
          if \<not> fst r then Some (False, snd r)
          else
            (case closeAllFiles True (snd r\<lparr>connSwitched := False, connAllClosed := False\<rparr>) of
               None \<Rightarrow> None
             | Some s1 \<Rightarrow> Some (True, s1)))"

section \<open>MainWindow: open, reload, rename, focus\<close>

text \<open>
  \<^verbatim>\<open>MainWindow::openFileList\<close>, lines 819-866: the \<^verbatim>\<open>foreach\<close> loop with the variable
  \<open>mostRecentBuffer\<close>, then the whole function. \<^verbatim>\<open>QFileInfo::isFile\<close> holds of the
  paths on the disk; the answer to "Create File" is the next of \<open>answers\<close>.
\<close>

fun openFileList_loop ::
  "string list \<Rightarrow> nat option \<Rightarrow> MainWindow \<Rightarrow> nat option \<times> MainWindow" where
  "openFileList_loop [] mostRecentBuffer s = (mostRecentBuffer, s)"
| "openFileList_loop (filePath # rest) mostRecentBuffer s =
     (case getBufferByFilePath filePath s of
        Some buffer \<Rightarrow> openFileList_loop rest (Some buffer) s
      | None \<Rightarrow>
          if disk s filePath = None then
            (if answers s (asked s) = Yes then
               openFileList_loop rest
                 (fst (createBufferFromFile filePath (s\<lparr>asked := asked s + 1\<rparr>)))
                 (snd (createBufferFromFile filePath (s\<lparr>asked := asked s + 1\<rparr>)))
             else openFileList_loop rest mostRecentBuffer (s\<lparr>asked := asked s + 1\<rparr>))
          else
            openFileList_loop rest
              (fst (createBufferFromFile filePath s))
              (snd (createBufferFromFile filePath s)))"

definition openFileList :: "string list \<Rightarrow> MainWindow \<Rightarrow> MainWindow option" where
  "openFileList fileNames' s =
     (if length fileNames' = 0 then Some s
      else
        (case isInInitialState s of
           None \<Rightarrow> None
         | Some wasInitialState \<Rightarrow>
             (case fst (openFileList_loop fileNames' None s) of
                None \<Rightarrow> Some (snd (openFileList_loop fileNames' None s))
              | Some mostRecentBuffer \<Rightarrow>
                  (case switchToBuffer mostRecentBuffer
                          (snd (openFileList_loop fileNames' None s)) of
                     None \<Rightarrow> None
                   | Some s1 \<Rightarrow> if wasInitialState then closeFile 0 s1 else Some s1))))"

text \<open>\<^verbatim>\<open>MainWindow::openFile\<close>, lines 952-955.\<close>

definition openFile :: "string \<Rightarrow> MainWindow \<Rightarrow> MainWindow option" where
  "openFile filePath s = openFileList [filePath] s"

text \<open>
  \<^verbatim>\<open>MainWindow::reloadFile\<close>, lines 957-970. The answer to "Reload File" is the next of
  \<open>answers\<close>.
\<close>

definition reloadFile :: "MainWindow \<Rightarrow> MainWindow option" where
  "reloadFile s =
     (case getCurrentBuffer s of
        None \<Rightarrow> None
      | Some buffer \<Rightarrow>
          (case map_of (buffers s) buffer of
             None \<Rightarrow> None
           | Some buf \<Rightarrow>
               if \<not> isFile buf \<and> \<not> is_save_point buf then Some s
               else if answers s (asked s) = Yes then
                 reloadBuffer buffer (s\<lparr>asked := asked s + 1\<rparr>)
               else Some (s\<lparr>asked := asked s + 1\<rparr>)))"

text \<open>
  \<^verbatim>\<open>MainWindow::renameFile\<close>, lines 1225-1245. A failed \<^verbatim>\<open>Q_ASSERT\<close> has no result.
\<close>

definition renameFile :: "MainWindow \<Rightarrow> MainWindow option" where
  "renameFile s =
     (case getCurrentBuffer s of
        None \<Rightarrow> None
      | Some buffer \<Rightarrow>
          (case map_of (buffers s) buffer of
             None \<Rightarrow> None
           | Some buf \<Rightarrow>
               if \<not> isFile buf then None
               else if length (fileNames s (chosen s)) = 0 then
                 Some (s\<lparr>chosen := chosen s + 1\<rparr>)
               else
                 (let fileName = fileNames s (chosen s);
                      s1 = s\<lparr>chosen := chosen s + 1\<rparr>;
                      otherBuffer = getBufferByFilePath fileName s1
                  in case renameBuffer buffer fileName s1 of
                       None \<Rightarrow> None
                     | Some r \<Rightarrow>
                         (case otherBuffer of
                            None \<Rightarrow> Some (snd r)
                          | Some other \<Rightarrow>
                              if fst r then closeBuffer other (snd r)
                              else Some (snd r)))))"

text \<open>
  \<^verbatim>\<open>MainWindow::focusIn\<close>, lines 1573-1580: the check on the current buffer; its result
  only decides whether the widgets are refreshed.
\<close>

definition focusIn :: "MainWindow \<Rightarrow> MainWindow option" where
  "focusIn s =
     (case getCurrentBuffer s of
        None \<Rightarrow> None
      | Some buffer \<Rightarrow> map_option snd (checkBufferForModification buffer s))"

section \<open>Invariants and frames\<close>

text \<open>
  The spec's invariant between registry and tab ordering: "every Buffer in the registry
  appears in exactly one position of the Tab/View Controller's ordering, and vice versa".
  Pointers are allocated upwards, so the registered ones lie below \<open>nextPtr\<close>.
\<close>

definition consistent :: "MainWindow \<Rightarrow> bool" where
  "consistent s \<longleftrightarrow>
     distinct (map fst (buffers s)) \<and> distinct (tabs s) \<and>
     set (tabs s) = set (map fst (buffers s)) \<and>
     (\<forall>k \<in> set (map fst (buffers s)). k < nextPtr s)"

text \<open>
  What a checking pass leaves as it was: the tab ordering, the registered pointers (no
  buffer is closed and none is created), the connections and the environment's answers.
\<close>

definition sameTabs :: "MainWindow \<Rightarrow> MainWindow \<Rightarrow> bool" where
  "sameTabs s s' \<longleftrightarrow>
     tabs s' = tabs s \<and> map fst (buffers s') = map fst (buffers s) \<and>
     nextPtr s' = nextPtr s \<and> newCount s' = newCount s \<and>
     connSwitched s' = connSwitched s \<and> connAllClosed s' = connAllClosed s \<and>
     readFails s' = readFails s \<and> writeFails s' = writeFails s \<and>
     answers s' = answers s \<and> fileNames s' = fileNames s"

text \<open>
  The registry calls made from \<open>s\<close> to \<open>s'\<close> hold no \<^verbatim>\<open>closeBuffer\<close>, and a buffer's
  content differs only where \<^verbatim>\<open>reloadBuffer\<close> was called on it.
\<close>

definition editsKept :: "MainWindow \<Rightarrow> MainWindow \<Rightarrow> bool" where
  "editsKept s s' \<longleftrightarrow>
     (\<exists>new. calls s' = calls s @ new \<and> (\<forall>b. CloseBuffer b \<notin> set new) \<and>
        (\<forall>b buf buf'. map_of (buffers s) b = Some buf \<longrightarrow>
           map_of (buffers s') b = Some buf' \<longrightarrow>
           content buf' = content buf \<or> ReloadBuffer b \<in> set new))"

text \<open>
  Nothing is rolled back and nothing becomes dirty: a buffer is in \<open>s'\<close> exactly as it was
  in \<open>s\<close>, or it is at save-point.
\<close>

definition savesKept :: "MainWindow \<Rightarrow> MainWindow \<Rightarrow> bool" where
  "savesKept s s' \<longleftrightarrow>
     (\<forall>b buf buf'. map_of (buffers s) b = Some buf \<longrightarrow>
        map_of (buffers s') b = Some buf' \<longrightarrow> buf' = buf \<or> is_save_point buf')"

definition passFrame :: "MainWindow \<Rightarrow> MainWindow \<Rightarrow> bool" where
  "passFrame s s' \<longleftrightarrow>
     sameTabs s s' \<and> editsKept s s' \<and> savesKept s s' \<and> asked s \<le> asked s'"

text \<open>The registry calls made from \<open>s\<close> to \<open>s'\<close>.\<close>

definition newCalls :: "MainWindow \<Rightarrow> MainWindow \<Rightarrow> call list" where
  "newCalls s s' = drop (length (calls s)) (calls s')"

text \<open>
  The silent reload: the current buffer \<open>b\<close> is dirty, \<^verbatim>\<open>checkForBufferStateChange\<close> finds
  its file modified on the disk, and \<open>s'\<close> is what \<^verbatim>\<open>reloadBuffer\<close> makes of \<open>s\<close>.
\<close>

definition silentReload :: "nat \<Rightarrow> MainWindow \<Rightarrow> MainWindow \<Rightarrow> bool" where
  "silentReload b s s' \<longleftrightarrow>
     getCurrentBuffer s = Some b \<and>
     (case map_of (buffers s) b of
        None \<Rightarrow> False
      | Some buf \<Rightarrow> \<not> is_save_point buf \<and> checkForBufferStateChange buf s = Modified) \<and>
     reloadBuffer b s = Some s'"

text \<open>
  The steps a checking pass is made of: a switch to a tab, the silent reload of the buffer
  switched to, a prompt answered, the file chooser dismissed, the current buffer (dirty and
  file-backed) saved, the current buffer (dirty and not file-backed) saved under the name
  the file chooser gave. None of them closes a buffer,
  and only the silent reload changes a content.
\<close>

inductive passStep :: "MainWindow \<Rightarrow> MainWindow \<Rightarrow> bool" where
  step_switch: "0 \<le> i \<Longrightarrow> i < count s \<Longrightarrow> passStep s (s\<lparr>cur := i\<rparr>)"
| step_reload: "silentReload b s s' \<Longrightarrow> passStep s s'"
| step_prompt: "passStep s (s\<lparr>asked := asked s + 1\<rparr>)"
| step_dismiss: "fileNames s (chosen s) = [] \<Longrightarrow> passStep s (s\<lparr>chosen := chosen s + 1\<rparr>)"
| step_save:
    "getCurrentBuffer s = Some b \<Longrightarrow> map_of (buffers s) b = Some buf \<Longrightarrow>
     \<not> is_save_point buf \<Longrightarrow> isFile buf \<Longrightarrow> saveBuffer b s = Some (r, s') \<Longrightarrow>
     passStep s s'"
| step_saveAs:
    "getCurrentBuffer s = Some b \<Longrightarrow> map_of (buffers s) b = Some buf \<Longrightarrow>
     \<not> is_save_point buf \<Longrightarrow> \<not> isFile buf \<Longrightarrow> fileNames s (chosen s) \<noteq> [] \<Longrightarrow>
     saveBufferAs b (fileNames s (chosen s)) (s\<lparr>chosen := chosen s + 1\<rparr>) = Some (r, s') \<Longrightarrow>
     passStep s s'"

text \<open>
  The five batch-close entry points, the checking pass each of them starts with (two
  passes in sequence for \<^verbatim>\<open>closeAllExceptActive\<close>, lines 1032-1037), and the entry point
  itself.
\<close>

datatype batch = CloseAll | CloseAllExceptActive | CloseAllToLeft | CloseAllToRight | WindowClose

definition checkingPass :: "batch \<Rightarrow> MainWindow \<Rightarrow> (bool \<times> MainWindow) option" where
  "checkingPass op s =
     (case op of
        CloseAll \<Rightarrow> checkBuffersBeforeClose 0 (count s) s
      | CloseAllExceptActive \<Rightarrow>
          (case checkBuffersBeforeClose 0 (currentIndex s) s of
             None \<Rightarrow> None
           | Some r \<Rightarrow>
               if \<not> fst r then Some r
               else checkBuffersBeforeClose (currentIndex s + 1) (count (snd r)) (snd r))
      | CloseAllToLeft \<Rightarrow> checkBuffersBeforeClose 0 (currentIndex s) s
      | CloseAllToRight \<Rightarrow> checkBuffersBeforeClose (currentIndex s) (count s) s
      | WindowClose \<Rightarrow> checkBuffersBeforeClose 0 (count s) s)"

definition runBatch :: "batch \<Rightarrow> MainWindow \<Rightarrow> MainWindow option" where
  "runBatch op s =
     (case op of
        CloseAll \<Rightarrow> closeAllFiles False s
      | CloseAllExceptActive \<Rightarrow> closeAllExceptActive s
      | CloseAllToLeft \<Rightarrow> closeAllToLeft s
      | CloseAllToRight \<Rightarrow> closeAllToRight s
      | WindowClose \<Rightarrow> map_option snd (closeEvent s))"

text \<open>The registered pointers and the path of each are the same in \<open>s\<close> and \<open>s'\<close>.\<close>

definition samePaths :: "MainWindow \<Rightarrow> MainWindow \<Rightarrow> bool" where
  "samePaths s s' \<longleftrightarrow>
     map (\<lambda>e. (fst e, fileInfo (snd e))) (buffers s') =
     map (\<lambda>e. (fst e, fileInfo (snd e))) (buffers s)"

text \<open>
  The spec's invariant on paths: "a file-backed Buffer's path is unique among open Buffers".
\<close>

definition uniquePaths :: "MainWindow \<Rightarrow> bool" where
  "uniquePaths s \<longleftrightarrow>
     (\<forall>e1 \<in> set (buffers s). \<forall>e2 \<in> set (buffers s).
        fileInfo (snd e1) \<noteq> None \<and> fileInfo (snd e1) = fileInfo (snd e2) \<longrightarrow> fst e1 = fst e2)"

text \<open>
  The recovery is connected and at least one buffer is open.
\<close>

definition nonEmpty :: "MainWindow \<Rightarrow> bool" where
  "nonEmpty s \<longleftrightarrow> connAllClosed s \<and> tabs s \<noteq> []"

text \<open>
  The user operations of the lifecycle layer, as the actions, the tab bar and the window
  events trigger them, and what each performs.
\<close>

datatype operation =
    NewFile
  | OpenFileList "string list"
  | OpenFile string
  | CloseFile int
  | CloseCurrentFile
  | BatchClose batch
  | SaveFile nat
  | SaveCurrentFileAsDialog
  | ReloadFile
  | RenameFile
  | FocusIn
  | SwitchToIndex int

definition perform :: "operation \<Rightarrow> MainWindow \<Rightarrow> MainWindow option" where
  "perform op s =
     (case op of
        NewFile \<Rightarrow> newFile s
      | OpenFileList ps \<Rightarrow> openFileList ps s
      | OpenFile p \<Rightarrow> openFile p s
      | CloseFile i \<Rightarrow> closeFile i s
      | CloseCurrentFile \<Rightarrow> closeCurrentFile s
      | BatchClose b \<Rightarrow> runBatch b s
      | SaveFile b \<Rightarrow> map_option snd (saveFile b s)
      | SaveCurrentFileAsDialog \<Rightarrow> map_option snd (saveCurrentFileAsDialog s)
      | ReloadFile \<Rightarrow> reloadFile s
      | RenameFile \<Rightarrow> renameFile s
      | FocusIn \<Rightarrow> focusIn s
      | SwitchToIndex i \<Rightarrow> switchToIndex i s)"

section \<open>Example windows\<close>

text \<open>
  The window as the constructor leaves it, the window after the first \<^verbatim>\<open>newFile\<close>, and a
  window with three tabs: a saved file, an edited file and an edited untitled buffer.
\<close>

definition emptyWindow :: MainWindow where
  "emptyWindow =
     \<lparr>buffers = [], nextPtr = 0, tabs = [], cur = - 1, newCount = 1,
      connSwitched = True, connAllClosed = True, disk = Map.empty, clock = 0,
      readFails = (\<lambda>p. False), writeFails = (\<lambda>p. False),
      answers = (\<lambda>n. Cancel), asked = 0, fileNames = (\<lambda>n. []), chosen = 0, calls = []\<rparr>"

definition untitled :: "string \<Rightarrow> ScintillaBuffer" where
  "untitled nm =
     \<lparr>name = nm, fileInfo = None, savePoint = True, content = [], modifiedTime = None\<rparr>"

definition fileBuffer :: "string \<Rightarrow> string \<Rightarrow> nat \<Rightarrow> ScintillaBuffer" where
  "fileBuffer p txt t =
     \<lparr>name = p, fileInfo = Some p, savePoint = True, content = txt, modifiedTime = Some t\<rparr>"

definition initialWindow :: MainWindow where
  "initialWindow =
     emptyWindow\<lparr>buffers := [(0, untitled ''New 1'')], nextPtr := 1, tabs := [0], cur := 0,
                 newCount := 2\<rparr>"

definition threeTabs :: MainWindow where
  "threeTabs =
     emptyWindow
       \<lparr>buffers := [(0, fileBuffer ''/a.txt'' ''aaa'' 1),
                    (1, (fileBuffer ''/b.txt'' ''bbb edited'' 2)\<lparr>savePoint := False\<rparr>),
                    (2, (untitled ''New 1'')\<lparr>savePoint := False, content := ''ccc''\<rparr>)],
        nextPtr := 3, tabs := [0, 1, 2], cur := 0, newCount := 2,
        disk := [''/a.txt'' \<mapsto> (''aaa'', 1), ''/b.txt'' \<mapsto> (''bbb'', 2)], clock := 3\<rparr>"

text \<open>The same three tabs after another program rewrote \<^verbatim>\<open>/b.txt\<close> on the disk.\<close>

definition threeTabsModified :: MainWindow where
  "threeTabsModified =
     threeTabs\<lparr>disk := [''/a.txt'' \<mapsto> (''aaa'', 1), ''/b.txt'' \<mapsto> (''on disk'', 9)]\<rparr>"

text \<open>The three tabs with the untitled one current and a user who answers Save.\<close>

definition savingTabs :: MainWindow where
  "savingTabs = threeTabs\<lparr>cur := 2, answers := (\<lambda>n. Save)\<rparr>"

text \<open>The three tabs with a user who answers Save to the first prompt and Cancel to the next.\<close>

definition saveThenCancel :: MainWindow where
  "saveThenCancel = threeTabs\<lparr>answers := (\<lambda>n. if n = 0 then Save else Cancel)\<rparr>"

text \<open>
  The same window after \<^verbatim>\<open>/b.txt\<close> was saved and the prompt for the untitled buffer was
  answered.
\<close>

definition savedThenCancelled :: MainWindow where
  "savedThenCancelled =
     saveThenCancel
       \<lparr>buffers := [(0, fileBuffer ''/a.txt'' ''aaa'' 1),
                    (1, fileBuffer ''/b.txt'' ''bbb edited'' 3),
                    (2, (untitled ''New 1'')\<lparr>savePoint := False, content := ''ccc''\<rparr>)],
        cur := 2,
        disk := [''/a.txt'' \<mapsto> (''aaa'', 1), ''/b.txt'' \<mapsto> (''bbb edited'', 3)], clock := 4,
        asked := 2, calls := [SaveBuffer 1]\<rparr>"

text \<open>The three tabs with a user who picks \<^verbatim>\<open>/b.txt\<close> in the rename dialog.\<close>

definition renamingTabs :: MainWindow where
  "renamingTabs = threeTabs\<lparr>fileNames := (\<lambda>n. ''/b.txt'')\<rparr>"

text \<open>The three tabs with a user who answers Discard.\<close>

definition discardingTabs :: MainWindow where
  "discardingTabs = threeTabs\<lparr>answers := (\<lambda>n. Discard)\<rparr>"

text \<open>
  The initial window beside a disk with two files, of which \<^verbatim>\<open>/b.txt\<close> cannot be read.
\<close>

definition unreadableWindow :: MainWindow where
  "unreadableWindow =
     initialWindow\<lparr>disk := [''/a.txt'' \<mapsto> (''aaa'', 1), ''/b.txt'' \<mapsto> (''bbb'', 2)],
                    readFails := (\<lambda>p. p = ''/b.txt'')\<rparr>"

section \<open>Frame lemmas\<close>

lemma passFrame_refl: "passFrame s s"
  by (simp add: passFrame_def sameTabs_def editsKept_def savesKept_def)

lemma map_of_keys_eq:
  assumes "map fst al' = map fst al" and "map_of al k = Some v"
  shows "\<exists>v'. map_of al' k = Some v'"
proof -
  from assms(2) have "k \<in> set (map fst al)" by (metis map_of_eq_None_iff option.distinct(1) set_map)
  then have "k \<in> fst ` set al'" using assms(1) by (metis set_map)
  then show ?thesis by (metis map_of_eq_None_iff not_None_eq)
qed

lemma passFrame_trans:
  assumes "passFrame s s1" and "passFrame s1 s2"
  shows "passFrame s s2"
proof -
  from assms obtain n1 n2 where n1: "calls s1 = calls s @ n1" "\<forall>b. CloseBuffer b \<notin> set n1"
    "\<forall>b buf buf'. map_of (buffers s) b = Some buf \<longrightarrow> map_of (buffers s1) b = Some buf' \<longrightarrow>
           content buf' = content buf \<or> ReloadBuffer b \<in> set n1"
    and n2: "calls s2 = calls s1 @ n2" "\<forall>b. CloseBuffer b \<notin> set n2"
    "\<forall>b buf buf'. map_of (buffers s1) b = Some buf \<longrightarrow> map_of (buffers s2) b = Some buf' \<longrightarrow>
           content buf' = content buf \<or> ReloadBuffer b \<in> set n2"
    unfolding passFrame_def editsKept_def by blast
  have keys: "map fst (buffers s1) = map fst (buffers s)"
    using assms(1) by (simp add: passFrame_def sameTabs_def)
  have "\<forall>b buf buf'. map_of (buffers s) b = Some buf \<longrightarrow> map_of (buffers s2) b = Some buf' \<longrightarrow>
           content buf' = content buf \<or> ReloadBuffer b \<in> set (n1 @ n2)"
  proof (intro allI impI)
    fix b buf buf'
    assume a: "map_of (buffers s) b = Some buf" and b: "map_of (buffers s2) b = Some buf'"
    from map_of_keys_eq [OF keys a] obtain buf1 where c: "map_of (buffers s1) b = Some buf1" by blast
    from n1(3) a c have "content buf1 = content buf \<or> ReloadBuffer b \<in> set n1" by blast
    moreover from n2(3) c b have "content buf' = content buf1 \<or> ReloadBuffer b \<in> set n2" by blast
    ultimately show "content buf' = content buf \<or> ReloadBuffer b \<in> set (n1 @ n2)" by auto
  qed
  moreover have "calls s2 = calls s @ (n1 @ n2)" using n1(1) n2(1) by simp
  moreover have "\<forall>b. CloseBuffer b \<notin> set (n1 @ n2)" using n1(2) n2(2) by simp
  ultimately have "editsKept s s2" unfolding editsKept_def by blast
  moreover have "savesKept s s2"
  proof -
    from assms have k1: "savesKept s s1" and k2: "savesKept s1 s2" by (simp_all add: passFrame_def)
    show ?thesis unfolding savesKept_def
    proof (intro allI impI)
      fix b buf buf'
      assume a: "map_of (buffers s) b = Some buf" and b: "map_of (buffers s2) b = Some buf'"
      from map_of_keys_eq [OF keys a] obtain buf1 where c: "map_of (buffers s1) b = Some buf1"
        by blast
      from k1 a c have "buf1 = buf \<or> is_save_point buf1" unfolding savesKept_def by blast
      moreover from k2 c b have "buf' = buf1 \<or> is_save_point buf'" unfolding savesKept_def by blast
      ultimately show "buf' = buf \<or> is_save_point buf'" by auto
    qed
  qed
  moreover have "sameTabs s s2" using assms by (simp add: passFrame_def sameTabs_def)
  moreover have "asked s \<le> asked s2" using assms by (simp add: passFrame_def)
  ultimately show ?thesis by (simp add: passFrame_def)
qed

lemma consistent_sameTabs: "consistent s \<Longrightarrow> sameTabs s s' \<Longrightarrow> consistent s'"
  by (simp add: consistent_def sameTabs_def)

lemma update_keys_present: "map_of al k = Some v \<Longrightarrow> map fst (AList.update k v' al) = map fst al"
  by (metis map_of_eq_None_iff option.distinct(1) set_map update_keys)

lemma reloadBuffer_passFrame:
  assumes "reloadBuffer b s = Some s'"
  shows "passFrame s s' \<and> cur s' = cur s \<and> asked s' = asked s \<and> chosen s' = chosen s"
proof -
  have "sameTabs s s' \<and> cur s' = cur s \<and> asked s' = asked s \<and> chosen s' = chosen s"
    using assms
    by (auto simp add: reloadBuffer_def sameTabs_def update_keys_present split: option.splits if_splits)
  moreover have "editsKept s s'"
    unfolding editsKept_def
    using assms
    by (intro exI [of _ "[ReloadBuffer b]"])
       (auto simp add: reloadBuffer_def update_conv' split: option.splits if_splits)
  moreover have "savesKept s s'"
    unfolding savesKept_def
    using assms
    by (auto simp add: reloadBuffer_def update_conv' is_save_point_def split: option.splits if_splits)
  ultimately show ?thesis by (simp add: passFrame_def)
qed

lemma reloadBuffer_total: "map_of (buffers s) b = Some buf \<Longrightarrow> \<exists>s'. reloadBuffer b s = Some s'"
  by (auto simp add: reloadBuffer_def split: option.splits)

lemma bufferActivated_passFrame:
  assumes "bufferActivated b s = Some s'"
  shows "passFrame s s' \<and> cur s' = cur s \<and> asked s' = asked s \<and> chosen s' = chosen s"
  using assms reloadBuffer_passFrame [of b s] passFrame_refl [of s]
  by (auto simp add: bufferActivated_def checkBufferForModification_def Let_def
      split: option.splits if_splits)

lemma bufferActivated_total:
  "map_of (buffers s) b = Some buf \<Longrightarrow> \<exists>s'. bufferActivated b s = Some s'"
  using reloadBuffer_total [of s b buf]
  by (auto simp add: bufferActivated_def checkBufferForModification_def Let_def)

lemma bufferSwitched_passFrame:
  assumes "bufferSwitched b s = Some s'"
  shows "passFrame s s' \<and> cur s' = cur s \<and> asked s' = asked s \<and> chosen s' = chosen s"
  using assms bufferActivated_passFrame [of b s] passFrame_refl [of s]
  by (auto simp add: bufferSwitched_def split: if_splits)

lemma bufferSwitched_total:
  "map_of (buffers s) b = Some buf \<Longrightarrow> \<exists>s'. bufferSwitched b s = Some s'"
  using bufferActivated_total [of s b buf] by (simp add: bufferSwitched_def)


lemma indexOf_range: "- 1 \<le> indexOf xs b \<and> indexOf xs b < int (length xs)"
  by (induction xs) (auto simp add: Let_def)

lemma indexOf_notin: "b \<notin> set xs \<Longrightarrow> indexOf xs b = - 1"
  by (induction xs) (auto simp add: Let_def)

lemma indexOf_in: "b \<in> set xs \<Longrightarrow> 0 \<le> indexOf xs b \<and> xs ! nat (indexOf xs b) = b"
proof (induction xs)
  case Nil
  then show ?case by simp
next
  case (Cons x xs)
  show ?case
  proof (cases "x = b")
    case True
    then show ?thesis by simp
  next
    case False
    with Cons have "0 \<le> indexOf xs b \<and> xs ! nat (indexOf xs b) = b" by simp
    with False show ?thesis by (simp add: Let_def nat_add_distrib)
  qed
qed

lemma indexOf_neg_iff: "indexOf xs b < 0 \<longleftrightarrow> b \<notin> set xs"
  using indexOf_in [of b xs] indexOf_notin [of b xs] by auto

lemma indexOf_nth: "distinct xs \<Longrightarrow> i < length xs \<Longrightarrow> indexOf xs (xs ! i) = int i"
proof (induction xs arbitrary: i)
  case Nil
  then show ?case by simp
next
  case (Cons x xs)
  show ?case
  proof (cases i)
    case 0
    then show ?thesis by simp
  next
    case (Suc j)
    with Cons.prems have "indexOf xs (xs ! j) = int j" and "x \<noteq> xs ! j"
      using Cons.IH [of j] by auto
    with Suc show ?thesis by (simp add: Let_def)
  qed
qed

lemma consistent_tab_buffer:
  assumes "consistent s" and "b \<in> set (tabs s)"
  shows "\<exists>buf. map_of (buffers s) b = Some buf"
proof -
  from assms have "b \<in> fst ` set (buffers s)" by (simp add: consistent_def)
  then show ?thesis by (metis map_of_eq_None_iff not_None_eq)
qed

lemma getBufferFromIndex_in_tabs: "getBufferFromIndex i s = Some b \<Longrightarrow> b \<in> set (tabs s)"
  by (auto simp add: getBufferFromIndex_def count_def split: if_splits)

lemma switchToIndex_passFrame:
  assumes "switchToIndex i s = Some s'"
  shows "passFrame s s' \<and> asked s' = asked s \<and> chosen s' = chosen s \<and>
         cur s' = (if 0 \<le> i \<and> i < count s then i else cur s)"
proof (cases "0 \<le> i \<and> i < count s")
  case True
  with assms have a: "bufferSwitched (tabs s ! nat i) (s\<lparr>cur := i\<rparr>) = Some s'"
    by (simp add: switchToIndex_def)
  have "passFrame s (s\<lparr>cur := i\<rparr>)"
    by (simp add: passFrame_def sameTabs_def editsKept_def savesKept_def)
  with bufferSwitched_passFrame [OF a] True show ?thesis
    using passFrame_trans by auto
next
  case False
  with assms show ?thesis by (auto simp add: switchToIndex_def passFrame_refl)
qed

lemma switchToIndex_total:
  assumes "consistent s"
  shows "\<exists>s'. switchToIndex i s = Some s'"
proof (cases "0 \<le> i \<and> i < count s")
  case True
  then have "nat i < length (tabs s)" by (simp add: count_def nat_less_iff)
  then have "tabs s ! nat i \<in> set (tabs s)" by (rule nth_mem)
  with assms obtain buf where "map_of (buffers s) (tabs s ! nat i) = Some buf"
    using consistent_tab_buffer by blast
  then have "map_of (buffers (s\<lparr>cur := i\<rparr>)) (tabs s ! nat i) = Some buf" by simp
  from bufferSwitched_total [OF this] True show ?thesis by (simp add: switchToIndex_def)
next
  case False
  then show ?thesis by (auto simp add: switchToIndex_def)
qed

lemma switchToBuffer_passFrame:
  assumes "switchToBuffer b s = Some s'"
  shows "passFrame s s' \<and> asked s' = asked s \<and> chosen s' = chosen s \<and>
         cur s' = (if b \<in> set (tabs s) then indexOf (tabs s) b else cur s)"
  using switchToIndex_passFrame [of "indexOf (tabs s) b" s s'] assms
    indexOf_range [of "tabs s" b] indexOf_in [of b "tabs s"] indexOf_notin [of b "tabs s"]
  by (auto simp add: switchToBuffer_def getIndexFromBuffer_def count_def)

lemma switchToBuffer_total: "consistent s \<Longrightarrow> \<exists>s'. switchToBuffer b s = Some s'"
  using switchToIndex_total by (simp add: switchToBuffer_def)

lemma saveBuffer_passFrame:
  assumes "saveBuffer b s = Some (r, s')"
  shows "passFrame s s' \<and> asked s' = asked s \<and> cur s' = cur s"
proof -
  have "sameTabs s s' \<and> asked s' = asked s \<and> cur s' = cur s"
    using assms
    by (auto simp add: saveBuffer_def sameTabs_def update_keys_present split: option.splits if_splits)
  moreover have "editsKept s s'"
    unfolding editsKept_def
    using assms
    by (intro exI [of _ "[SaveBuffer b]"])
       (auto simp add: saveBuffer_def update_conv' split: option.splits if_splits)
  moreover have "savesKept s s'"
    unfolding savesKept_def
    using assms
    by (auto simp add: saveBuffer_def update_conv' is_save_point_def split: option.splits if_splits)
  ultimately show ?thesis by (simp add: passFrame_def)
qed

lemma saveBufferAs_passFrame:
  assumes "saveBufferAs b p s = Some (r, s')"
  shows "passFrame s s' \<and> asked s' = asked s \<and> cur s' = cur s"
proof -
  have "sameTabs s s' \<and> asked s' = asked s \<and> cur s' = cur s"
    using assms
    by (auto simp add: saveBufferAs_def sameTabs_def update_keys_present split: option.splits if_splits)
  moreover have "editsKept s s'"
    unfolding editsKept_def
    using assms
    by (intro exI [of _ "[SaveBufferAs b p]"])
       (auto simp add: saveBufferAs_def update_conv' split: option.splits if_splits)
  moreover have "savesKept s s'"
    unfolding savesKept_def
    using assms
    by (auto simp add: saveBufferAs_def update_conv' is_save_point_def split: option.splits if_splits)
  ultimately show ?thesis by (simp add: passFrame_def)
qed

lemma saveCurrentFileAsDialog_passFrame:
  assumes "saveCurrentFileAsDialog s = Some (r, s')"
  shows "passFrame s s' \<and> asked s' = asked s \<and> cur s' = cur s"
proof -
  have f: "passFrame s (s\<lparr>chosen := chosen s + 1\<rparr>)"
    by (simp add: passFrame_def sameTabs_def editsKept_def savesKept_def)
  show ?thesis
    using assms f saveBufferAs_passFrame [of _ _ "s\<lparr>chosen := chosen s + 1\<rparr>" r s']
      passFrame_trans [OF f]
    by (auto simp add: saveCurrentFileAsDialog_def saveFileAs_def Let_def
        split: option.splits if_splits)
qed

lemma saveCurrentFileAsDialog_total:
  assumes "getCurrentBuffer s = Some b" and "map_of (buffers s) b = Some buf"
  shows "\<exists>r s'. saveCurrentFileAsDialog s = Some (r, s')"
  using assms
  by (auto simp add: saveCurrentFileAsDialog_def saveFileAs_def saveBufferAs_def Let_def)

lemma saveFile_passFrame:
  assumes "saveFile b s = Some (r, s')"
  shows "passFrame s s' \<and> asked s' = asked s"
proof -
  obtain buf where buf: "map_of (buffers s) b = Some buf"
    using assms by (auto simp add: saveFile_def split: option.splits)
  show ?thesis
  proof (cases "is_save_point buf")
    case True
    with assms buf show ?thesis by (auto simp add: saveFile_def passFrame_refl)
  next
    case False
    show ?thesis
    proof (cases "isFile buf")
      case True
      with assms buf False obtain q where "saveBuffer b s = Some q" and "s' = snd q"
        by (auto simp add: saveFile_def split: option.splits if_splits)
      then show ?thesis using saveBuffer_passFrame [of b s "fst q" "snd q"] by simp
    next
      case nf: False
      with assms buf False obtain s1 where a: "switchToBuffer b s = Some s1"
        and b: "saveCurrentFileAsDialog s1 = Some (r, s')"
        by (auto simp add: saveFile_def split: option.splits)
      from switchToBuffer_passFrame [OF a] saveCurrentFileAsDialog_passFrame [OF b]
      show ?thesis using passFrame_trans by auto
    qed
  qed
qed

lemma getBufferFromIndex_sameTabs: "tabs s' = tabs s \<Longrightarrow> getBufferFromIndex i s' = getBufferFromIndex i s"
  by (simp add: getBufferFromIndex_def count_def)

lemma saveFile_total:
  assumes "consistent s" and "b \<in> set (tabs s)"
  shows "\<exists>r s'. saveFile b s = Some (r, s')"
proof -
  from assms obtain buf where buf: "map_of (buffers s) b = Some buf"
    using consistent_tab_buffer by blast
  show ?thesis
  proof (cases "is_save_point buf")
    case True
    with buf show ?thesis by (auto simp add: saveFile_def)
  next
    case False
    show ?thesis
    proof (cases "isFile buf")
      case True
      with buf False show ?thesis
        by (auto simp add: saveFile_def saveBuffer_def split: option.splits)
    next
      case nf: False
      from switchToBuffer_total [OF assms(1)] obtain s1 where a: "switchToBuffer b s = Some s1"
        by blast
      from switchToBuffer_passFrame [OF a] assms(2)
      have t: "tabs s1 = tabs s" and k: "map fst (buffers s1) = map fst (buffers s)"
        and c: "cur s1 = indexOf (tabs s) b"
        by (simp_all add: passFrame_def sameTabs_def)
      from indexOf_in [OF assms(2)] indexOf_range [of "tabs s" b] t c
      have "getCurrentBuffer s1 = Some b"
        by (simp add: getCurrentBuffer_def getBufferFromIndex_def currentIndex_def count_def)
      moreover from map_of_keys_eq [OF k buf] obtain buf1 where "map_of (buffers s1) b = Some buf1"
        by blast
      ultimately obtain r s' where "saveCurrentFileAsDialog s1 = Some (r, s')"
        using saveCurrentFileAsDialog_total by blast
      with a buf False nf show ?thesis by (simp add: saveFile_def)
    qed
  qed
qed

lemma passFrame_asked: "passFrame s (s\<lparr>asked := asked s + 1\<rparr>)"
  by (simp add: passFrame_def sameTabs_def editsKept_def savesKept_def)

lemma passFrame_fields:
  "passFrame s s' \<Longrightarrow> tabs s' = tabs s \<and> answers s' = answers s \<and> count s' = count s \<and> asked s \<le> asked s'"
  by (simp add: passFrame_def sameTabs_def count_def)

lemma passFrame_consistent: "consistent s \<Longrightarrow> passFrame s s' \<Longrightarrow> consistent s'"
  using consistent_sameTabs by (auto simp add: passFrame_def)

lemma check_done: "\<not> i < e \<Longrightarrow> checkBuffersBeforeClose i e s = Some (True, s)"
  by (subst checkBuffersBeforeClose.simps) simp

lemma check_clean:
  assumes "i < e" and "getBufferFromIndex i s = Some b" and "map_of (buffers s) b = Some buf"
    and "is_save_point buf"
  shows "checkBuffersBeforeClose i e s = checkBuffersBeforeClose (i + 1) e s"
  using assms by (subst checkBuffersBeforeClose.simps) simp

lemma check_cancel:
  assumes "i < e" and "getBufferFromIndex i s = Some b" and "map_of (buffers s) b = Some buf"
    and "\<not> is_save_point buf" and "switchToIndex i s = Some s1"
    and "answers s1 (asked s1) = Cancel"
  shows "checkBuffersBeforeClose i e s = Some (False, s1\<lparr>asked := asked s1 + 1\<rparr>)"
  using assms by (subst checkBuffersBeforeClose.simps) simp

lemma check_discard:
  assumes "i < e" and "getBufferFromIndex i s = Some b" and "map_of (buffers s) b = Some buf"
    and "\<not> is_save_point buf" and "switchToIndex i s = Some s1"
    and "answers s1 (asked s1) \<noteq> Cancel" and "answers s1 (asked s1) \<noteq> Save"
  shows "checkBuffersBeforeClose i e s =
         checkBuffersBeforeClose (i + 1) e (s1\<lparr>asked := asked s1 + 1\<rparr>)"
  using assms by (subst checkBuffersBeforeClose.simps) simp

lemma check_save:
  assumes "i < e" and "getBufferFromIndex i s = Some b" and "map_of (buffers s) b = Some buf"
    and "\<not> is_save_point buf" and "switchToIndex i s = Some s1"
    and "answers s1 (asked s1) = Save"
    and "saveFile b (s1\<lparr>asked := asked s1 + 1\<rparr>) = Some (r, s3)"
  shows "checkBuffersBeforeClose i e s =
         (if r then checkBuffersBeforeClose (i + 1) e s3 else Some (False, s3))"
  using assms by (subst checkBuffersBeforeClose.simps) simp

section \<open>The checking pass\<close>

lemma passFrame_no_cancel_step:
  assumes "passFrame s t" and "asked t = asked s + 1" and "answers s (asked s) \<noteq> Cancel"
    and "passFrame t s'"
    and "\<forall>j. asked t \<le> j \<and> j < asked s' \<longrightarrow> answers t j \<noteq> Cancel"
  shows "\<forall>j. asked s \<le> j \<and> j < asked s' \<longrightarrow> answers s j \<noteq> Cancel"
proof (intro allI impI)
  fix j assume j: "asked s \<le> j \<and> j < asked s'"
  have an: "answers t = answers s" using passFrame_fields [OF assms(1)] by simp
  show "answers s j \<noteq> Cancel"
  proof (cases "j = asked s")
    case True
    with assms(3) show ?thesis by simp
  next
    case False
    with j assms(2) have "asked t \<le> j \<and> j < asked s'" by simp
    with assms(5) an show ?thesis by simp
  qed
qed

lemma checkBuffersBeforeClose_pass:
  assumes "consistent s" and "0 \<le> i" and "e \<le> count s"
  shows "\<exists>ok s'. checkBuffersBeforeClose i e s = Some (ok, s') \<and> passFrame s s' \<and>
           (ok \<longrightarrow> (\<forall>j. asked s \<le> j \<and> j < asked s' \<longrightarrow> answers s j \<noteq> Cancel))"
  using assms
proof (induction "nat (e - i)" arbitrary: i s)
  case 0
  then have "\<not> i < e" by simp
  from check_done [OF this] have "checkBuffersBeforeClose i e s = Some (True, s)" .
  moreover have "passFrame s s" by (rule passFrame_refl)
  ultimately show ?case by fastforce
next
  case (Suc n)
  from Suc.hyps(2) have lt: "i < e" and n: "n = nat (e - (i + 1))" by linarith+
  let ?b = "tabs s ! nat i"
  from lt Suc.prems have gb: "getBufferFromIndex i s = Some ?b"
    by (simp add: getBufferFromIndex_def)
  then have mem: "?b \<in> set (tabs s)" by (rule getBufferFromIndex_in_tabs)
  with Suc.prems(1) obtain buf where buf: "map_of (buffers s) ?b = Some buf"
    using consistent_tab_buffer by blast
  have step: "\<exists>ok s'. checkBuffersBeforeClose (i + 1) e t = Some (ok, s') \<and> passFrame t s' \<and>
           (ok \<longrightarrow> (\<forall>j. asked t \<le> j \<and> j < asked s' \<longrightarrow> answers t j \<noteq> Cancel))"
    if "passFrame s t" for t
  proof -
    from that Suc.prems(1) have "consistent t" by (rule passFrame_consistent [rotated])
    moreover from that Suc.prems(3) have "e \<le> count t" using passFrame_fields by fastforce
    moreover from Suc.prems(2) have "0 \<le> i + 1" by simp
    ultimately show ?thesis using Suc.hyps(1) [OF n] by blast
  qed
  show ?case
  proof (cases "is_save_point buf")
    case True
    from check_clean [OF lt gb buf True] step [OF passFrame_refl] show ?thesis by simp
  next
    case False
    from switchToIndex_total [OF Suc.prems(1)] obtain s1 where sw: "switchToIndex i s = Some s1"
      by blast
    from switchToIndex_passFrame [OF sw]
    have f1: "passFrame s s1" and a1: "asked s1 = asked s" by simp_all
    from passFrame_fields [OF f1] have an1: "answers s1 = answers s" and t1: "tabs s1 = tabs s"
      by simp_all
    let ?s2 = "s1\<lparr>asked := asked s1 + 1\<rparr>"
    have f12: "passFrame s1 ?s2" by (rule passFrame_asked)
    have f2: "passFrame s ?s2" using passFrame_trans [OF f1 f12] .
    have a2: "asked ?s2 = asked s + 1" using a1 by simp
    show ?thesis
    proof (cases "answers s (asked s) = Cancel")
      case True
      then have "answers s1 (asked s1) = Cancel" using an1 a1 by simp
      from check_cancel [OF lt gb buf False sw this] f2 show ?thesis by fastforce
    next
      case nc: False
      then have nc1: "answers s1 (asked s1) \<noteq> Cancel" using an1 a1 by simp
      show ?thesis
      proof (cases "answers s (asked s) = Save")
        case nsv: False
        then have "answers s1 (asked s1) \<noteq> Save" using an1 a1 by simp
        from check_discard [OF lt gb buf False sw nc1 this]
        have eq: "checkBuffersBeforeClose i e s = checkBuffersBeforeClose (i + 1) e ?s2" .
        from step [OF f2] obtain ok s' where
          r: "checkBuffersBeforeClose (i + 1) e ?s2 = Some (ok, s')" and f3: "passFrame ?s2 s'"
          and c: "ok \<longrightarrow> (\<forall>j. asked ?s2 \<le> j \<and> j < asked s' \<longrightarrow> answers ?s2 j \<noteq> Cancel)"
          by blast
        have "passFrame s s'" using passFrame_trans [OF f2 f3] .
        moreover have "ok \<longrightarrow> (\<forall>j. asked s \<le> j \<and> j < asked s' \<longrightarrow> answers s j \<noteq> Cancel)"
          using passFrame_no_cancel_step [OF f2 a2 nc f3] c by blast
        moreover have "checkBuffersBeforeClose i e s = Some (ok, s')" using eq r by simp
        ultimately show ?thesis by blast
      next
        case sv: True
        then have sv1: "answers s1 (asked s1) = Save" using an1 a1 by simp
        have "consistent ?s2" using passFrame_consistent [OF Suc.prems(1) f2] .
        moreover have "?b \<in> set (tabs ?s2)" using mem t1 by simp
        ultimately obtain r s3 where sf: "saveFile ?b ?s2 = Some (r, s3)"
          using saveFile_total by blast
        from saveFile_passFrame [OF sf] have f3: "passFrame ?s2 s3" and a3: "asked s3 = asked ?s2"
          by simp_all
        have f03: "passFrame s s3" using passFrame_trans [OF f2 f3] .
        have a03: "asked s3 = asked s + 1" using a3 a2 by simp
        note eq = check_save [OF lt gb buf False sw sv1 sf]
        show ?thesis
        proof (cases r)
          case False
          with eq have "checkBuffersBeforeClose i e s = Some (False, s3)" by simp
          with f03 show ?thesis by fastforce
        next
          case True
          with eq have eq': "checkBuffersBeforeClose i e s = checkBuffersBeforeClose (i + 1) e s3"
            by simp
          from step [OF f03] obtain ok s' where
            r: "checkBuffersBeforeClose (i + 1) e s3 = Some (ok, s')" and f4: "passFrame s3 s'"
            and c: "ok \<longrightarrow> (\<forall>j. asked s3 \<le> j \<and> j < asked s' \<longrightarrow> answers s3 j \<noteq> Cancel)"
            by blast
          have "passFrame s s'" using passFrame_trans [OF f03 f4] .
          moreover have "ok \<longrightarrow> (\<forall>j. asked s \<le> j \<and> j < asked s' \<longrightarrow> answers s j \<noteq> Cancel)"
            using passFrame_no_cancel_step [OF f03 a03 nc f4] c by blast
          moreover have "checkBuffersBeforeClose i e s = Some (ok, s')" using eq' r by simp
          ultimately show ?thesis by blast
        qed
      qed
    qed
  qed
qed

lemma runBatch_aborts:
  assumes "checkingPass op s = Some (False, s')"
  shows "runBatch op s = Some s'"
proof (cases op)
  case CloseAll
  with assms show ?thesis by (simp add: checkingPass_def runBatch_def closeAllFiles_def)
next
  case CloseAllExceptActive
  show ?thesis
  proof (cases "checkBuffersBeforeClose 0 (currentIndex s) s")
    case None
    with assms CloseAllExceptActive show ?thesis by (simp add: checkingPass_def)
  next
    case (Some r)
    with assms CloseAllExceptActive show ?thesis
      by (cases "fst r") (auto simp add: checkingPass_def runBatch_def closeAllExceptActive_def)
  qed
next
  case CloseAllToLeft
  with assms show ?thesis by (simp add: checkingPass_def runBatch_def closeAllToLeft_def)
next
  case CloseAllToRight
  with assms show ?thesis by (simp add: checkingPass_def runBatch_def closeAllToRight_def)
next
  case WindowClose
  with assms show ?thesis by (simp add: checkingPass_def runBatch_def closeEvent_def)
qed

lemma checkingPass_frame:
  assumes "consistent s" and "0 \<le> currentIndex s" and "currentIndex s < count s"
  shows "\<exists>ok s'. checkingPass op s = Some (ok, s') \<and> passFrame s s' \<and>
           (ok \<longrightarrow> (\<forall>j. asked s \<le> j \<and> j < asked s' \<longrightarrow> answers s j \<noteq> Cancel))"
proof (cases "op = CloseAllExceptActive")
  case False
  then show ?thesis
    using checkBuffersBeforeClose_pass [OF assms(1), of 0 "count s"]
      checkBuffersBeforeClose_pass [OF assms(1), of 0 "currentIndex s"]
      checkBuffersBeforeClose_pass [OF assms(1), of "currentIndex s" "count s"] assms(2,3)
    by (cases op) (simp_all add: checkingPass_def)
next
  case True
  from checkBuffersBeforeClose_pass [OF assms(1), of 0 "currentIndex s"] assms(3)
  obtain ok1 s1 where p1: "checkBuffersBeforeClose 0 (currentIndex s) s = Some (ok1, s1)"
    and f1: "passFrame s s1"
    and c1: "ok1 \<longrightarrow> (\<forall>j. asked s \<le> j \<and> j < asked s1 \<longrightarrow> answers s j \<noteq> Cancel)"
    by auto
  show ?thesis
  proof (cases ok1)
    case False
    with p1 f1 True show ?thesis by (auto simp add: checkingPass_def)
  next
    case ok1: True
    have "consistent s1" using passFrame_consistent [OF assms(1) f1] .
    from checkBuffersBeforeClose_pass [OF this, of "currentIndex s + 1" "count s1"] assms(2)
    obtain ok2 s2 where
      p2: "checkBuffersBeforeClose (currentIndex s + 1) (count s1) s1 = Some (ok2, s2)"
      and f2: "passFrame s1 s2"
      and c2: "ok2 \<longrightarrow> (\<forall>j. asked s1 \<le> j \<and> j < asked s2 \<longrightarrow> answers s1 j \<noteq> Cancel)"
      by auto
    have "passFrame s s2" using passFrame_trans [OF f1 f2] .
    moreover have "ok2 \<longrightarrow> (\<forall>j. asked s \<le> j \<and> j < asked s2 \<longrightarrow> answers s j \<noteq> Cancel)"
      using c1 c2 ok1 passFrame_fields [OF f1] by (metis not_le_imp_less)
    moreover have "checkingPass op s = Some (ok2, s2)"
      using True p1 p2 ok1 by (simp add: checkingPass_def)
    ultimately show ?thesis by blast
  qed
qed

lemma check_skip_clean:
  assumes "start \<le> i" and "i \<le> e"
    and "\<forall>j. start \<le> j \<and> j < i \<longrightarrow>
           (\<exists>c bufc. getBufferFromIndex j s = Some c \<and> map_of (buffers s) c = Some bufc \<and>
                     is_save_point bufc)"
  shows "checkBuffersBeforeClose start e s = checkBuffersBeforeClose i e s"
  using assms
proof (induction "nat (i - start)" arbitrary: start)
  case 0
  then show ?case by simp
next
  case (Suc n)
  then have lt: "start < i" and n: "n = nat (i - (start + 1))" by linarith+
  with Suc.prems obtain c bufc where c: "getBufferFromIndex start s = Some c"
    "map_of (buffers s) c = Some bufc" "is_save_point bufc"
    by (metis order_refl)
  from lt Suc.prems(2) have "start < e" by simp
  from check_clean [OF this c]
  have "checkBuffersBeforeClose start e s = checkBuffersBeforeClose (start + 1) e s" .
  also have "\<dots> = checkBuffersBeforeClose i e s"
    using Suc.hyps(1) [OF n] lt Suc.prems(2,3) by simp
  finally show ?case .
qed

lemma bufferSwitched_untitled:
  assumes "map_of (buffers s) b = Some buf" and "\<not> isFile buf"
  shows "bufferSwitched b s = Some s"
  using assms
  by (simp add: bufferSwitched_def bufferActivated_def checkBufferForModification_def
      checkForBufferStateChange_def isFile_def)

lemma switchToIndex_untitled:
  assumes "getBufferFromIndex i s = Some b" and "map_of (buffers s) b = Some buf"
    and "\<not> isFile buf"
  shows "switchToIndex i s = Some (s\<lparr>cur := i\<rparr>)"
proof -
  from assms(1) have r: "0 \<le> i \<and> i < count s" and b: "tabs s ! nat i = b"
    by (auto simp add: getBufferFromIndex_def split: if_splits)
  have "map_of (buffers (s\<lparr>cur := i\<rparr>)) b = Some buf" using assms(2) by simp
  from bufferSwitched_untitled [OF this assms(3)] r b show ?thesis
    by (simp add: switchToIndex_def)
qed

lemma getBufferFromIndex_indexOf:
  assumes "distinct (tabs s)" and "getBufferFromIndex i s = Some b"
  shows "getIndexFromBuffer b s = i"
proof -
  from assms(2) have r: "0 \<le> i \<and> i < count s" and b: "tabs s ! nat i = b"
    by (auto simp add: getBufferFromIndex_def split: if_splits)
  then have "nat i < length (tabs s)" by (simp add: count_def nat_less_iff)
  from indexOf_nth [OF assms(1) this] b r show ?thesis by (simp add: getIndexFromBuffer_def)
qed

section \<open>Opening what is open\<close>

lemma samePaths_refl: "samePaths s s"
  by (simp add: samePaths_def)

lemma samePaths_trans: "samePaths s s1 \<Longrightarrow> samePaths s1 s2 \<Longrightarrow> samePaths s s2"
  by (simp add: samePaths_def)

lemma find_path_cong:
  assumes "map (\<lambda>e. (fst e, fileInfo (snd e))) xs = map (\<lambda>e. (fst e, fileInfo (snd e))) ys"
  shows "map_option fst (find (\<lambda>e. fileInfo (snd e) = Some p) xs) =
         map_option fst (find (\<lambda>e. fileInfo (snd e) = Some p) ys)"
  using assms
proof (induction xs arbitrary: ys)
  case Nil
  then show ?case by simp
next
  case (Cons x xs)
  then obtain y ys' where ys: "ys = y # ys'" by (cases ys) auto
  with Cons.prems have "fst x = fst y" "fileInfo (snd x) = fileInfo (snd y)"
    and "map (\<lambda>e. (fst e, fileInfo (snd e))) xs = map (\<lambda>e. (fst e, fileInfo (snd e))) ys'"
    by simp_all
  with Cons.IH [of ys'] ys show ?case by simp
qed

lemma getBufferByFilePath_samePaths:
  "samePaths s s' \<Longrightarrow> getBufferByFilePath p s' = getBufferByFilePath p s"
  unfolding samePaths_def getBufferByFilePath_def by (rule find_path_cong)

lemma update_same_path:
  assumes "map_of al k = Some v0" and "fileInfo v = fileInfo v0"
  shows "map (\<lambda>e. (fst e, fileInfo (snd e))) (AList.update k v al) =
         map (\<lambda>e. (fst e, fileInfo (snd e))) al"
  using assms by (induction al) (auto split: if_splits)

lemma reloadBuffer_samePaths: "reloadBuffer b s = Some s' \<Longrightarrow> samePaths s s'"
  by (auto simp add: reloadBuffer_def samePaths_def update_same_path
      split: option.splits if_splits)

lemma bufferSwitched_samePaths:
  assumes "bufferSwitched b s = Some s'"
  shows "samePaths s s'"
  using assms reloadBuffer_samePaths [of b s] samePaths_refl [of s]
  by (auto simp add: bufferSwitched_def bufferActivated_def checkBufferForModification_def
      Let_def split: option.splits if_splits)

lemma switchToIndex_samePaths:
  assumes "switchToIndex i s = Some s'"
  shows "samePaths s s'"
proof (cases "0 \<le> i \<and> i < count s")
  case True
  with assms have "bufferSwitched (tabs s ! nat i) (s\<lparr>cur := i\<rparr>) = Some s'"
    by (simp add: switchToIndex_def)
  from bufferSwitched_samePaths [OF this] show ?thesis by (simp add: samePaths_def)
next
  case False
  with assms show ?thesis by (auto simp add: switchToIndex_def samePaths_refl)
qed

lemma switchToBuffer_samePaths: "switchToBuffer b s = Some s' \<Longrightarrow> samePaths s s'"
  using switchToIndex_samePaths by (simp add: switchToBuffer_def)

lemma getBufferByFilePath_Some:
  assumes "getBufferByFilePath p s = Some b"
  shows "\<exists>buf. (b, buf) \<in> set (buffers s) \<and> fileInfo buf = Some p"
proof -
  from assms obtain e where "find (\<lambda>e. fileInfo (snd e) = Some p) (buffers s) = Some e"
    and "fst e = b"
    by (auto simp add: getBufferByFilePath_def)
  then have "e \<in> set (buffers s) \<and> fileInfo (snd e) = Some p"
    by (auto simp add: find_Some_iff)
  with \<open>fst e = b\<close> show ?thesis by (cases e) auto
qed

lemma openFileList_loop_open:
  assumes "\<forall>p \<in> set ps. getBufferByFilePath p s \<noteq> None"
  shows "openFileList_loop ps mrb s =
         (if ps = [] then mrb else getBufferByFilePath (last ps) s, s)"
  using assms by (induction ps arbitrary: mrb) auto

lemma not_initial_with_file:
  assumes "consistent s" and "getBufferByFilePath p s = Some b"
  shows "isInInitialState s = Some False \<and> b \<in> set (tabs s)"
proof -
  from getBufferByFilePath_Some [OF assms(2)] obtain buf where
    e: "(b, buf) \<in> set (buffers s)" and f: "fileInfo buf = Some p" by blast
  from assms(1) have d: "distinct (map fst (buffers s))" by (simp add: consistent_def)
  from e d have m: "map_of (buffers s) b = Some buf" by simp
  from e assms(1) have t: "b \<in> set (tabs s)" by (force simp add: consistent_def)
  show ?thesis
  proof (cases "count s = 1")
    case True
    then obtain x where x: "tabs s = [x]"
      by (cases "tabs s") (auto simp add: count_def)
    with t have "x = b" by simp
    with x True m f show ?thesis
      by (simp add: isInInitialState_def getBufferFromIndex_def isFile_def)
  next
    case False
    with t show ?thesis by (simp add: isInInitialState_def)
  qed
qed

lemma openFileList_open_step:
  assumes "consistent s" and "ps \<noteq> []"
    and "\<forall>p \<in> set ps. getBufferByFilePath p s \<noteq> None"
    and "getBufferByFilePath (last ps) s = Some b"
  shows "\<exists>s'. openFileList ps s = Some s' \<and> switchToBuffer b s = Some s' \<and>
              tabs s' = tabs s \<and> map fst (buffers s') = map fst (buffers s) \<and>
              getCurrentBuffer s' = Some b \<and> consistent s' \<and> samePaths s s'"
proof -
  from not_initial_with_file [OF assms(1,4)]
  have ni: "isInInitialState s = Some False" and t: "b \<in> set (tabs s)" by simp_all
  from switchToBuffer_total [OF assms(1)] obtain s' where sw: "switchToBuffer b s = Some s'"
    by blast
  from switchToBuffer_passFrame [OF sw] t
  have f: "passFrame s s'" and c: "cur s' = indexOf (tabs s) b" by simp_all
  from passFrame_fields [OF f] have ts: "tabs s' = tabs s" by simp
  from f have ks: "map fst (buffers s') = map fst (buffers s)"
    by (simp add: passFrame_def sameTabs_def)
  from indexOf_in [OF t] indexOf_range [of "tabs s" b] c ts
  have g: "getCurrentBuffer s' = Some b"
    by (simp add: getCurrentBuffer_def getBufferFromIndex_def currentIndex_def count_def)
  have "openFileList ps s = Some s'"
    using assms(2,4) ni sw openFileList_loop_open [OF assms(3), of None]
    by (simp add: openFileList_def)
  with sw ts ks g passFrame_consistent [OF assms(1) f] switchToBuffer_samePaths [OF sw]
  show ?thesis by simp
qed

section \<open>Renaming onto an open path\<close>

lemma mem_delete_update:
  assumes "distinct (map fst al)"
  shows "e \<in> set (AList.delete c (AList.update b v al)) \<longleftrightarrow>
         fst e \<noteq> c \<and> (if fst e = b then snd e = v else e \<in> set al)"
proof -
  have d: "distinct (map fst (AList.delete c (AList.update b v al)))"
    using assms by (simp add: distinct_delete distinct_update)
  have "e \<in> set (AList.delete c (AList.update b v al)) \<longleftrightarrow>
        map_of (AList.delete c (AList.update b v al)) (fst e) = Some (snd e)"
    using map_of_eq_Some_iff [OF d, of "fst e" "snd e"] by simp
  also have "\<dots> \<longleftrightarrow> fst e \<noteq> c \<and> (if fst e = b then snd e = v else map_of al (fst e) = Some (snd e))"
    by (auto simp add: delete_conv' update_conv')
  also have "\<dots> \<longleftrightarrow> fst e \<noteq> c \<and> (if fst e = b then snd e = v else e \<in> set al)"
    using map_of_eq_Some_iff [OF assms, of "fst e" "snd e"] by simp
  finally show ?thesis .
qed

lemma getCurrentBuffer_cong:
  "tabs s' = tabs s \<Longrightarrow> cur s' = cur s \<Longrightarrow> getCurrentBuffer s' = getCurrentBuffer s"
  by (simp add: getCurrentBuffer_def currentIndex_def getBufferFromIndex_def count_def)

lemma removeBuffer_not_current:
  assumes "other \<in> set (tabs s)" and "getIndexFromBuffer other s \<noteq> cur s"
    and "remove1 other (tabs s) \<noteq> []"
  shows "removeBuffer other s =
         Some (s\<lparr>tabs := remove1 other (tabs s),
                 cur := (if getIndexFromBuffer other s < cur s then cur s - 1 else cur s)\<rparr>)"
proof -
  from indexOf_in [OF assms(1)] have "\<not> getIndexFromBuffer other s < 0"
    by (simp add: getIndexFromBuffer_def)
  with assms(2,3) show ?thesis by (simp add: removeBuffer_def Let_def)
qed

lemma current_index_of:
  assumes "getCurrentBuffer s = Some b" and "other \<in> set (tabs s)" and "other \<noteq> b"
  shows "getIndexFromBuffer other s \<noteq> cur s \<and> b \<in> set (remove1 other (tabs s))"
proof -
  from assms(1) have r: "0 \<le> cur s \<and> cur s < count s" and b: "tabs s ! nat (cur s) = b"
    by (auto simp add: getCurrentBuffer_def currentIndex_def getBufferFromIndex_def
        split: if_splits)
  from indexOf_in [OF assms(2)] have "tabs s ! nat (getIndexFromBuffer other s) = other"
    by (simp add: getIndexFromBuffer_def)
  with b assms(3) have "getIndexFromBuffer other s \<noteq> cur s" by auto
  moreover from r have "nat (cur s) < length (tabs s)" by (simp add: count_def nat_less_iff)
  then have "b \<in> set (tabs s)" using b nth_mem by blast
  with assms(3) have "b \<in> set (remove1 other (tabs s))" by simp
  ultimately show ?thesis by simp
qed

section \<open>At least one buffer stays open\<close>

lemma passFrame_nonEmpty: "passFrame s s' \<Longrightarrow> nonEmpty s \<Longrightarrow> nonEmpty s'"
  by (simp add: passFrame_def sameTabs_def nonEmpty_def)

lemma checkBuffersBeforeClose_frame:
  assumes "checkBuffersBeforeClose i e s = Some (ok, s')"
  shows "passFrame s s'"
  using assms
proof (induction "nat (e - i)" arbitrary: i s)
  case 0
  then have "\<not> i < e" by simp
  from check_done [OF this] 0 show ?case by (simp add: passFrame_refl)
next
  case (Suc n)
  from Suc.hyps(2) have lt: "i < e" and n: "n = nat (e - (i + 1))" by linarith+
  note r = Suc.prems
  from r lt obtain b where gb: "getBufferFromIndex i s = Some b"
    by (subst (asm) checkBuffersBeforeClose.simps) (auto split: option.splits)
  from r lt gb obtain buf where buf: "map_of (buffers s) b = Some buf"
    by (subst (asm) checkBuffersBeforeClose.simps) (auto split: option.splits)
  show ?case
  proof (cases "is_save_point buf")
    case True
    from check_clean [OF lt gb buf True] r Suc.hyps(1) [OF n] show ?thesis by simp
  next
    case False
    from r lt gb buf False obtain s1 where sw: "switchToIndex i s = Some s1"
      by (subst (asm) checkBuffersBeforeClose.simps) (auto split: option.splits)
    from switchToIndex_passFrame [OF sw] have f1: "passFrame s s1" by simp
    let ?s2 = "s1\<lparr>asked := asked s1 + 1\<rparr>"
    have f2: "passFrame s ?s2" using passFrame_trans [OF f1 passFrame_asked] .
    show ?thesis
    proof (cases "answers s1 (asked s1) = Cancel")
      case True
      from check_cancel [OF lt gb buf False sw True] r f2 show ?thesis by simp
    next
      case nc: False
      show ?thesis
      proof (cases "answers s1 (asked s1) = Save")
        case False
        from check_discard [OF lt gb buf \<open>\<not> is_save_point buf\<close> sw nc False] r
        have "checkBuffersBeforeClose (i + 1) e ?s2 = Some (ok, s')" by simp
        from Suc.hyps(1) [OF n this] f2 show ?thesis by (rule passFrame_trans [rotated])
      next
        case True
        from r lt gb buf \<open>\<not> is_save_point buf\<close> sw nc True
        obtain q where sf: "saveFile b ?s2 = Some q"
          by (subst (asm) checkBuffersBeforeClose.simps) (auto split: option.splits)
        then have sf': "saveFile b ?s2 = Some (fst q, snd q)" by simp
        from saveFile_passFrame [OF sf'] have f3: "passFrame ?s2 (snd q)" by simp
        have f03: "passFrame s (snd q)" using passFrame_trans [OF f2 f3] .
        note eq = check_save [OF lt gb buf \<open>\<not> is_save_point buf\<close> sw True sf']
        show ?thesis
        proof (cases "fst q")
          case False
          with eq r f03 show ?thesis by simp
        next
          case True
          with eq r have "checkBuffersBeforeClose (i + 1) e (snd q) = Some (ok, s')" by simp
          from Suc.hyps(1) [OF n this] f03 show ?thesis by (rule passFrame_trans [rotated])
        qed
      qed
    qed
  qed
qed

lemma checkingPass_frame_partial:
  assumes "checkingPass op s = Some (ok, s')"
  shows "passFrame s s'"
proof (cases "op = CloseAllExceptActive")
  case False
  with assms checkBuffersBeforeClose_frame show ?thesis
    by (cases op) (auto simp add: checkingPass_def)
next
  case True
  with assms obtain r where r: "checkBuffersBeforeClose 0 (currentIndex s) s = Some r"
    by (auto simp add: checkingPass_def split: option.splits)
  then have f1: "passFrame s (snd r)" using checkBuffersBeforeClose_frame [of _ _ s "fst r" "snd r"] by simp
  show ?thesis
  proof (cases "fst r")
    case False
    with assms True r f1 show ?thesis by (auto simp add: checkingPass_def)
  next
    case t: True
    with assms True r
    have "checkBuffersBeforeClose (currentIndex s + 1) (count (snd r)) (snd r) = Some (ok, s')"
      by (simp add: checkingPass_def)
    from checkBuffersBeforeClose_frame [OF this] f1 show ?thesis by (rule passFrame_trans [rotated])
  qed
qed

lemma createEmtpyBuffer_tabs:
  "tabs (createEmtpyBuffer nm s) = tabs s @ [nextPtr s] \<and>
   connAllClosed (createEmtpyBuffer nm s) = connAllClosed s"
  by (simp add: createEmtpyBuffer_def addBuffer_def)

lemma newFile_nonEmpty:
  assumes "newFile s = Some s'"
  shows "tabs s' \<noteq> [] \<and> connAllClosed s' = connAllClosed s"
proof -
  let ?s1 = "createEmtpyBuffer (''New '' @ decimal (newCount s)) (s\<lparr>newCount := newCount s + 1\<rparr>)"
  from assms have "switchToIndex (count ?s1 - 1) ?s1 = Some s'" by (simp add: newFile_def Let_def)
  from switchToIndex_passFrame [OF this] have "passFrame ?s1 s'" by simp
  then have "tabs s' = tabs ?s1" and "connAllClosed s' = connAllClosed ?s1"
    by (simp_all add: passFrame_def sameTabs_def)
  then show ?thesis using createEmtpyBuffer_tabs [of _ "s\<lparr>newCount := newCount s + 1\<rparr>"] by simp
qed

lemma removeBuffer_unfold:
  assumes "\<not> getIndexFromBuffer b s < 0"
    and "ts = remove1 b (tabs s)"
    and "c = (if getIndexFromBuffer b s < cur s then cur s - 1
              else if getIndexFromBuffer b s = cur s
                   then (if cur s < int (length ts) then cur s else cur s - 1)
                   else cur s)"
    and "s1 = s\<lparr>tabs := ts, cur := c\<rparr>"
  shows "removeBuffer b s =
         (if ts = [] then allBuffersClosed s1
          else if getIndexFromBuffer b s = cur s then bufferSwitched (ts ! nat c) s1
          else Some s1)"
  unfolding removeBuffer_def Let_def assms(2,3,4) using assms(1) by simp

lemma removeBuffer_nonEmpty:
  assumes "removeBuffer b s = Some s'" and "nonEmpty s"
  shows "nonEmpty s'"
proof (cases "getIndexFromBuffer b s < 0")
  case True
  with assms show ?thesis by (simp add: removeBuffer_def Let_def)
next
  case False
  define ts where "ts = remove1 b (tabs s)"
  define c where "c = (if getIndexFromBuffer b s < cur s then cur s - 1
              else if getIndexFromBuffer b s = cur s
                   then (if cur s < int (length ts) then cur s else cur s - 1)
                   else cur s)"
  define s1 where "s1 = s\<lparr>tabs := ts, cur := c\<rparr>"
  note u = removeBuffer_unfold [OF False ts_def c_def s1_def]
  have s1: "tabs s1 = ts" "connAllClosed s1 = connAllClosed s" by (simp_all add: s1_def)
  show ?thesis
  proof (cases "ts = []")
    case True
    with assms u have "newFile s1 = Some s'"
      by (simp add: allBuffersClosed_def nonEmpty_def s1)
    from newFile_nonEmpty [OF this] assms(2) s1 show ?thesis by (simp add: nonEmpty_def)
  next
    case ne: False
    show ?thesis
    proof (cases "getIndexFromBuffer b s = cur s")
      case True
      with assms u ne have "bufferSwitched (ts ! nat c) s1 = Some s'" by simp
      from bufferSwitched_passFrame [OF this] have "passFrame s1 s'" by simp
      moreover have "nonEmpty s1" using assms(2) ne s1 by (simp add: nonEmpty_def)
      ultimately show ?thesis by (rule passFrame_nonEmpty)
    next
      case nk: False
      with assms u ne have "s' = s1" by simp
      with assms(2) ne s1 show ?thesis by (simp add: nonEmpty_def)
    qed
  qed
qed

lemma closeBuffer_nonEmpty:
  assumes "closeBuffer b s = Some s'" and "nonEmpty s"
  shows "nonEmpty s'"
proof -
  let ?s1 = "s\<lparr>buffers := AList.delete b (buffers s), calls := calls s @ [CloseBuffer b]\<rparr>"
  from assms(1) have "removeBuffer b ?s1 = Some s'"
    by (auto simp add: closeBuffer_def split: option.splits)
  moreover have "nonEmpty ?s1" using assms(2) by (simp add: nonEmpty_def)
  ultimately show ?thesis by (rule removeBuffer_nonEmpty)
qed


lemma closeFile_nonEmpty:
  assumes "closeFile index s = Some s'" and "nonEmpty s"
  shows "nonEmpty s'"
proof -
  from assms(1) obtain initial where i: "isInInitialState s = Some initial"
    by (auto simp add: closeFile_def split: option.splits)
  show ?thesis
  proof (cases initial)
    case True
    with assms i show ?thesis by (simp add: closeFile_def)
  next
    case False
    with assms(1) i obtain b buf where gb: "getBufferFromIndex index s = Some b"
      and buf: "map_of (buffers s) b = Some buf"
      by (auto simp add: closeFile_def split: option.splits)
    show ?thesis
    proof (cases "is_save_point buf")
      case True
      with assms(1) i False gb buf have "closeBuffer b s = Some s'" by (simp add: closeFile_def)
      from closeBuffer_nonEmpty [OF this assms(2)] show ?thesis .
    next
      case d: False
      with assms(1) i False gb buf obtain s1 where sw: "switchToIndex index s = Some s1"
        by (auto simp add: closeFile_def split: option.splits)
      from switchToIndex_passFrame [OF sw] have f1: "passFrame s s1" by simp
      let ?s2 = "s1\<lparr>asked := Suc (asked s1)\<rparr>"
      have f2: "passFrame s ?s2" using passFrame_trans [OF f1 passFrame_asked] by simp
      have n2: "nonEmpty ?s2" using passFrame_nonEmpty [OF f2 assms(2)] .
      from assms(1) i False gb buf d sw
      have r: "(if answers s1 (asked s1) = Cancel then Some ?s2
                else if answers s1 (asked s1) = Save then
                  (case saveFile b ?s2 of None \<Rightarrow> None
                   | Some r \<Rightarrow> if fst r = False then Some (snd r) else closeBuffer b (snd r))
                else closeBuffer b ?s2) = Some s'"
        by (simp add: closeFile_def Let_def split del: if_split)
      show ?thesis
      proof (cases "answers s1 (asked s1) = Cancel")
        case True
        with r n2 show ?thesis by simp
      next
        case nc: False
        show ?thesis
        proof (cases "answers s1 (asked s1) = Save")
          case False
          with r nc have "closeBuffer b ?s2 = Some s'" by simp
          from closeBuffer_nonEmpty [OF this n2] show ?thesis .
        next
          case True
          with r nc obtain q where sf: "saveFile b ?s2 = Some (fst q, snd q)"
            and q: "(if fst q = False then Some (snd q) else closeBuffer b (snd q)) = Some s'"
            by (auto split: option.splits)
          from saveFile_passFrame [OF sf] have "passFrame ?s2 (snd q)" by simp
          from passFrame_nonEmpty [OF this n2] have n3: "nonEmpty (snd q)" .
          show ?thesis
          proof (cases "fst q")
            case False
            with q n3 show ?thesis by simp
          next
            case True
            with q have "closeBuffer b (snd q) = Some s'" by simp
            from closeBuffer_nonEmpty [OF this n3] show ?thesis .
          qed
        qed
      qed
    qed
  qed
qed

lemma closeAllFiles_loop_nonEmpty:
  assumes "closeAllFiles_loop index s = Some s'" and "nonEmpty s"
  shows "nonEmpty s'"
  using assms
proof (induction "nat (index + 1)" arbitrary: index s)
  case 0
  then have "\<not> index \<ge> 0" by simp
  with 0 show ?case by (subst (asm) closeAllFiles_loop.simps) simp
next
  case (Suc n)
  then have ge: "index \<ge> 0" and n: "n = nat (index - 1 + 1)" by linarith+
  from Suc.prems(1) ge obtain b s1 where "closeBuffer b s = Some s1"
    and r: "closeAllFiles_loop (index - 1) s1 = Some s'"
    by (subst (asm) closeAllFiles_loop.simps) (auto split: option.splits)
  from closeBuffer_nonEmpty [OF this(1) Suc.prems(2)] have "nonEmpty s1" .
  from Suc.hyps(1) [OF n r this] show ?case .
qed

lemma closeAllFiles_nonEmpty:
  assumes "closeAllFiles False s = Some s'" and "nonEmpty s"
  shows "nonEmpty s'"
proof -
  from assms(1) obtain r where c: "checkBuffersBeforeClose 0 (count s) s = Some (fst r, snd r)"
    and k: "(if \<not> fst r then Some (snd r)
             else (case switchToIndex (count (snd r) - 1) (snd r) of None \<Rightarrow> None
                   | Some s1 \<Rightarrow> closeAllFiles_loop (count s1 - 1) s1)) = Some s'"
    by (auto simp add: closeAllFiles_def split: option.splits)
  from checkBuffersBeforeClose_frame [OF c] have "passFrame s (snd r)" .
  from passFrame_nonEmpty [OF this assms(2)] have n1: "nonEmpty (snd r)" .
  show ?thesis
  proof (cases "fst r")
    case False
    with k n1 show ?thesis by simp
  next
    case True
    with k obtain s1 where sw: "switchToIndex (count (snd r) - 1) (snd r) = Some s1"
      and l: "closeAllFiles_loop (count s1 - 1) s1 = Some s'"
      by (auto split: option.splits)
    from switchToIndex_passFrame [OF sw] have "passFrame (snd r) s1" by simp
    from passFrame_nonEmpty [OF this n1] have "nonEmpty s1" .
    from closeAllFiles_loop_nonEmpty [OF l this] show ?thesis .
  qed
qed

lemma closeAllToLeft_loop_nonEmpty:
  assumes "closeAllToLeft_loop s = Some s'"
  shows "nonEmpty s \<longrightarrow> nonEmpty s'"
proof (rule closeAllToLeft_loop.raw_induct
    [where P = "\<lambda>s s'. nonEmpty s \<longrightarrow> nonEmpty s'", OF _ assms])
  fix loop s s'
  assume ih: "\<And>x y. loop x = Some y \<Longrightarrow> nonEmpty x \<longrightarrow> nonEmpty y"
    and e: "(if 0 < currentIndex s
             then case getBufferFromIndex 0 s of None \<Rightarrow> None
                  | Some buffer \<Rightarrow>
                      (case closeBuffer buffer s of None \<Rightarrow> None | Some s1 \<Rightarrow> loop s1)
             else Some s) = Some s'"
  show "nonEmpty s \<longrightarrow> nonEmpty s'"
  proof (cases "0 < currentIndex s")
    case False
    with e show ?thesis by simp
  next
    case True
    with e obtain b s1 where "closeBuffer b s = Some s1" and "loop s1 = Some s'"
      by (auto split: option.splits)
    with ih closeBuffer_nonEmpty show ?thesis by blast
  qed
qed

lemma closeAllToRight_loop_nonEmpty:
  assumes "closeAllToRight_loop curIndex s = Some s'"
  shows "nonEmpty s \<longrightarrow> nonEmpty s'"
proof (rule closeAllToRight_loop.raw_induct
    [where P = "\<lambda>curIndex s s'. nonEmpty s \<longrightarrow> nonEmpty s'", OF _ assms])
  fix loop curIndex s s'
  assume ih: "\<And>c x y. loop c x = Some y \<Longrightarrow> nonEmpty x \<longrightarrow> nonEmpty y"
    and e: "(if curIndex < count s - 1
             then case getBufferFromIndex (curIndex + 1) s of None \<Rightarrow> None
                  | Some buffer \<Rightarrow>
                      (case closeBuffer buffer s of None \<Rightarrow> None
                       | Some s1 \<Rightarrow> loop curIndex s1)
             else Some s) = Some s'"
  show "nonEmpty s \<longrightarrow> nonEmpty s'"
  proof (cases "curIndex < count s - 1")
    case False
    with e show ?thesis by simp
  next
    case True
    with e obtain b s1 where "closeBuffer b s = Some s1" and "loop curIndex s1 = Some s'"
      by (auto split: option.splits)
    with ih closeBuffer_nonEmpty show ?thesis by blast
  qed
qed

lemma closeAllExceptActive_loop_nonEmpty:
  assumes "closeAllExceptActive_loop currentBuffer i s = Some s'"
  shows "nonEmpty s \<longrightarrow> nonEmpty s'"
proof (rule closeAllExceptActive_loop.raw_induct
    [where P = "\<lambda>currentBuffer i s s'. nonEmpty s \<longrightarrow> nonEmpty s'", OF _ assms])
  fix loop currentBuffer i s s'
  assume ih: "\<And>c j x y. loop c j x = Some y \<Longrightarrow> nonEmpty x \<longrightarrow> nonEmpty y"
    and e: "(if 1 < count s
             then case getBufferFromIndex i s of None \<Rightarrow> None
                  | Some buffer \<Rightarrow>
                      if Some buffer = currentBuffer then loop currentBuffer (i + 1) s
                      else (case closeBuffer buffer s of None \<Rightarrow> None
                            | Some s1 \<Rightarrow> loop currentBuffer i s1)
             else Some s) = Some s'"
  show "nonEmpty s \<longrightarrow> nonEmpty s'"
  proof (cases "1 < count s")
    case False
    with e show ?thesis by simp
  next
    case True
    with e obtain b where gb: "getBufferFromIndex i s = Some b"
      by (auto split: option.splits)
    with e True
    have e': "(if Some b = currentBuffer then loop currentBuffer (i + 1) s
               else (case closeBuffer b s of None \<Rightarrow> None
                     | Some s1 \<Rightarrow> loop currentBuffer i s1)) = Some s'"
      by (simp split del: if_split)
    show ?thesis
    proof (cases "Some b = currentBuffer")
      case c: True
      from e' have "loop currentBuffer (i + 1) s = Some s'" unfolding if_P [OF c] .
      with ih show ?thesis by blast
    next
      case False
      with e' obtain s1 where "closeBuffer b s = Some s1"
        and "loop currentBuffer i s1 = Some s'"
        by (auto split: option.splits)
      with ih closeBuffer_nonEmpty show ?thesis by blast
    qed
  qed
qed

lemma runBatch_nonEmpty:
  assumes "runBatch op s = Some s'" and "nonEmpty s" and "op \<noteq> WindowClose"
  shows "nonEmpty s'"
proof -
  have p: "\<And>ok t. checkingPass op s = Some (ok, t) \<Longrightarrow> nonEmpty t"
    using checkingPass_frame_partial passFrame_nonEmpty assms(2) by blast
  show ?thesis
  proof (cases op)
    case CloseAll
    with assms closeAllFiles_nonEmpty show ?thesis by (simp add: runBatch_def)
  next
    case CloseAllExceptActive
    with assms(1) obtain r where a: "checkBuffersBeforeClose 0 (currentIndex s) s = Some r"
      by (auto simp add: runBatch_def closeAllExceptActive_def split: option.splits)
    show ?thesis
    proof (cases "fst r")
      case False
      with a CloseAllExceptActive have "checkingPass op s = Some (fst r, snd r)"
        by (cases r) (simp add: checkingPass_def)
      from p [OF this] a False CloseAllExceptActive assms(1) show ?thesis
        by (simp add: runBatch_def closeAllExceptActive_def)
    next
      case True
      with a CloseAllExceptActive assms(1) obtain r2 where
        b: "checkBuffersBeforeClose (currentIndex s + 1) (count (snd r)) (snd r) = Some r2"
        by (auto simp add: runBatch_def closeAllExceptActive_def split: option.splits)
      with a True CloseAllExceptActive have cp: "checkingPass op s = Some (fst r2, snd r2)"
        by (simp add: checkingPass_def)
      show ?thesis
      proof (cases "fst r2")
        case False
        with a b True CloseAllExceptActive assms(1) p [OF cp] show ?thesis
          by (simp add: runBatch_def closeAllExceptActive_def)
      next
        case t2: True
        with a b True CloseAllExceptActive assms(1)
        have "closeAllExceptActive_loop (getCurrentBuffer s) 0 (snd r2) = Some s'"
          by (simp add: runBatch_def closeAllExceptActive_def)
        from closeAllExceptActive_loop_nonEmpty [OF this] p [OF cp] show ?thesis by simp
      qed
    qed
  next
    case CloseAllToLeft
    with assms(1) obtain r where a: "checkBuffersBeforeClose 0 (currentIndex s) s = Some r"
      by (auto simp add: runBatch_def closeAllToLeft_def split: option.splits)
    with CloseAllToLeft have cp: "checkingPass op s = Some (fst r, snd r)"
      by (simp add: checkingPass_def)
    show ?thesis
    proof (cases "fst r")
      case False
      with a CloseAllToLeft assms(1) p [OF cp] show ?thesis
        by (simp add: runBatch_def closeAllToLeft_def)
    next
      case True
      with a CloseAllToLeft assms(1) obtain s1 where
        sw: "switchToIndex (currentIndex s) (snd r) = Some s1"
        and l: "closeAllToLeft_loop s1 = Some s'"
        by (auto simp add: runBatch_def closeAllToLeft_def split: option.splits)
      from switchToIndex_passFrame [OF sw] have "passFrame (snd r) s1" by simp
      from passFrame_nonEmpty [OF this p [OF cp]] closeAllToLeft_loop_nonEmpty [OF l]
      show ?thesis by simp
    qed
  next
    case CloseAllToRight
    with assms(1) obtain r where a: "checkBuffersBeforeClose (currentIndex s) (count s) s = Some r"
      by (auto simp add: runBatch_def closeAllToRight_def split: option.splits)
    with CloseAllToRight have cp: "checkingPass op s = Some (fst r, snd r)"
      by (simp add: checkingPass_def)
    show ?thesis
    proof (cases "fst r")
      case False
      with a CloseAllToRight assms(1) p [OF cp] show ?thesis
        by (simp add: runBatch_def closeAllToRight_def)
    next
      case True
      with a CloseAllToRight assms(1) obtain s1 where
        sw: "switchToIndex (currentIndex s) (snd r) = Some s1"
        and l: "closeAllToRight_loop (currentIndex s) s1 = Some s'"
        by (auto simp add: runBatch_def closeAllToRight_def split: option.splits)
      from switchToIndex_passFrame [OF sw] have "passFrame (snd r) s1" by simp
      from passFrame_nonEmpty [OF this p [OF cp]] closeAllToRight_loop_nonEmpty [OF l]
      show ?thesis by simp
    qed
  next
    case WindowClose
    with assms(3) show ?thesis by simp
  qed
qed

lemma createBufferFromFile_nonEmpty:
  assumes "nonEmpty s"
  shows "nonEmpty (snd (createBufferFromFile p s))"
  using assms
  by (auto simp add: createBufferFromFile_def nonEmpty_def addBuffer_def split: option.splits)

lemma openFileList_loop_nonEmpty:
  "nonEmpty s \<Longrightarrow> nonEmpty (snd (openFileList_loop ps mrb s))"
proof (induction ps arbitrary: mrb s)
  case Nil
  then show ?case by simp
next
  case (Cons p ps)
  have a: "nonEmpty (s\<lparr>asked := asked s + 1\<rparr>)" using Cons.prems by (simp add: nonEmpty_def)
  show ?case
    using Cons.IH [OF Cons.prems] Cons.IH [OF a]
      Cons.IH [OF createBufferFromFile_nonEmpty [OF Cons.prems]]
      Cons.IH [OF createBufferFromFile_nonEmpty [OF a]]
    by (simp split: option.splits)
qed

lemma openFileList_nonEmpty:
  assumes "openFileList ps s = Some s'" and "nonEmpty s"
  shows "nonEmpty s'"
proof (cases "length ps = 0")
  case True
  with assms show ?thesis by (simp add: openFileList_def)
next
  case False
  let ?r = "openFileList_loop ps None s"
  have n1: "nonEmpty (snd ?r)" using openFileList_loop_nonEmpty [OF assms(2)] .
  from assms(1) False obtain w where w: "isInInitialState s = Some w"
    by (auto simp add: openFileList_def split: option.splits)
  show ?thesis
  proof (cases "fst ?r")
    case None
    with assms(1) False w n1 show ?thesis by (simp add: openFileList_def)
  next
    case (Some b)
    with assms(1) False w obtain s1 where sw: "switchToBuffer b (snd ?r) = Some s1"
      and k: "(if w then closeFile 0 s1 else Some s1) = Some s'"
      by (auto simp add: openFileList_def split: option.splits)
    from switchToBuffer_passFrame [OF sw] have "passFrame (snd ?r) s1" by simp
    from passFrame_nonEmpty [OF this n1] have n2: "nonEmpty s1" .
    show ?thesis
    proof (cases w)
      case True
      with k have "closeFile 0 s1 = Some s'" by simp
      from closeFile_nonEmpty [OF this n2] show ?thesis .
    next
      case False
      with k n2 show ?thesis by simp
    qed
  qed
qed

lemma reloadFile_nonEmpty:
  assumes "reloadFile s = Some s'" and "nonEmpty s"
  shows "nonEmpty s'"
proof -
  from assms(1) obtain b buf where "getCurrentBuffer s = Some b"
    and "map_of (buffers s) b = Some buf"
    and k: "(if \<not> isFile buf \<and> \<not> is_save_point buf then Some s
             else if answers s (asked s) = Yes
                  then reloadBuffer b (s\<lparr>asked := asked s + 1\<rparr>)
                  else Some (s\<lparr>asked := asked s + 1\<rparr>)) = Some s'"
    by (auto simp add: reloadFile_def split: option.splits)
  have a: "nonEmpty (s\<lparr>asked := asked s + 1\<rparr>)" using assms(2) by (simp add: nonEmpty_def)
  show ?thesis
  proof (cases "\<not> isFile buf \<and> \<not> is_save_point buf")
    case True
    with k assms(2) show ?thesis by simp
  next
    case g: False
    show ?thesis
    proof (cases "answers s (asked s) = Yes")
      case True
      with k g have "reloadBuffer b (s\<lparr>asked := asked s + 1\<rparr>) = Some s'" by auto
      from reloadBuffer_passFrame [OF this] have "passFrame (s\<lparr>asked := asked s + 1\<rparr>) s'"
        by simp
      from passFrame_nonEmpty [OF this a] show ?thesis .
    next
      case False
      with k g a show ?thesis by auto
    qed
  qed
qed

lemma renameBuffer_nonEmpty:
  assumes "renameBuffer b p s = Some r" and "nonEmpty s"
  shows "nonEmpty (snd r)"
  using assms by (auto simp add: renameBuffer_def nonEmpty_def split: option.splits if_splits)

lemma renameFile_nonEmpty:
  assumes "renameFile s = Some s'" and "nonEmpty s"
  shows "nonEmpty s'"
proof -
  let ?s1 = "s\<lparr>chosen := chosen s + 1\<rparr>"
  let ?p = "fileNames s (chosen s)"
  have a: "nonEmpty ?s1" using assms(2) by (simp add: nonEmpty_def)
  from assms(1) obtain b buf where "getCurrentBuffer s = Some b"
    and "map_of (buffers s) b = Some buf" and "isFile buf"
    and k: "(if length ?p = 0 then Some ?s1
             else (case renameBuffer b ?p ?s1 of None \<Rightarrow> None
                   | Some r \<Rightarrow>
                       (case getBufferByFilePath ?p ?s1 of None \<Rightarrow> Some (snd r)
                        | Some other \<Rightarrow>
                            if fst r then closeBuffer other (snd r) else Some (snd r)))) = Some s'"
    by (auto simp add: renameFile_def Let_def split: option.splits if_splits)
  show ?thesis
  proof (cases "length ?p = 0")
    case True
    with k a show ?thesis by simp
  next
    case False
    with k obtain r where rn: "renameBuffer b ?p ?s1 = Some r"
      and k2: "(case getBufferByFilePath ?p ?s1 of None \<Rightarrow> Some (snd r)
                | Some other \<Rightarrow>
                    if fst r then closeBuffer other (snd r) else Some (snd r)) = Some s'"
      by (auto split: option.splits)
    from renameBuffer_nonEmpty [OF rn a] have n: "nonEmpty (snd r)" .
    show ?thesis
    proof (cases "getBufferByFilePath ?p ?s1")
      case None
      with k2 n show ?thesis by simp
    next
      case (Some other)
      show ?thesis
      proof (cases "fst r")
        case True
        with k2 Some have "closeBuffer other (snd r) = Some s'" by simp
        from closeBuffer_nonEmpty [OF this n] show ?thesis .
      next
        case False
        with k2 Some n show ?thesis by simp
      qed
    qed
  qed
qed

lemma focusIn_nonEmpty:
  assumes "focusIn s = Some s'" and "nonEmpty s"
  shows "nonEmpty s'"
proof -
  from assms(1) obtain b where "bufferActivated b s = Some s'"
    by (auto simp add: focusIn_def bufferActivated_def split: option.splits)
  from bufferActivated_passFrame [OF this] have "passFrame s s'" by simp
  from passFrame_nonEmpty [OF this assms(2)] show ?thesis .
qed

lemma perform_nonEmpty:
  assumes "perform op s = Some s'" and "nonEmpty s" and "op \<noteq> BatchClose WindowClose"
  shows "nonEmpty s'"
proof (cases op)
  case NewFile
  with assms newFile_nonEmpty [of s s'] show ?thesis by (simp add: perform_def nonEmpty_def)
next
  case (OpenFileList ps)
  with assms openFileList_nonEmpty show ?thesis by (simp add: perform_def)
next
  case (OpenFile p)
  with assms openFileList_nonEmpty show ?thesis by (simp add: perform_def openFile_def)
next
  case (CloseFile i)
  with assms closeFile_nonEmpty show ?thesis by (simp add: perform_def)
next
  case CloseCurrentFile
  with assms closeFile_nonEmpty show ?thesis by (simp add: perform_def closeCurrentFile_def)
next
  case (BatchClose b)
  with assms runBatch_nonEmpty show ?thesis by (simp add: perform_def)
next
  case (SaveFile b)
  with assms(1) obtain r where "saveFile b s = Some (r, s')" by (auto simp add: perform_def)
  from saveFile_passFrame [OF this] have "passFrame s s'" by simp
  from passFrame_nonEmpty [OF this assms(2)] show ?thesis .
next
  case SaveCurrentFileAsDialog
  with assms(1) obtain r where "saveCurrentFileAsDialog s = Some (r, s')"
    by (auto simp add: perform_def)
  from saveCurrentFileAsDialog_passFrame [OF this] have "passFrame s s'" by simp
  from passFrame_nonEmpty [OF this assms(2)] show ?thesis .
next
  case ReloadFile
  with assms reloadFile_nonEmpty show ?thesis by (simp add: perform_def)
next
  case RenameFile
  with assms renameFile_nonEmpty show ?thesis by (simp add: perform_def)
next
  case FocusIn
  with assms focusIn_nonEmpty show ?thesis by (simp add: perform_def)
next
  case (SwitchToIndex i)
  with assms(1) have "switchToIndex i s = Some s'" by (simp add: perform_def)
  from switchToIndex_passFrame [OF this] have "passFrame s s'" by simp
  from passFrame_nonEmpty [OF this assms(2)] show ?thesis .
qed

lemma distinct_singleton:
  assumes "distinct xs" and "set xs = {b}"
  shows "xs = [b]"
proof (cases xs)
  case Nil
  with assms(2) show ?thesis by simp
next
  case (Cons x ys)
  with assms(2) have x: "x = b" and sub: "set ys \<subseteq> {b}" by auto
  from Cons assms(1) x have "b \<notin> set ys" by simp
  with sub have "ys = []" by (cases ys) auto
  with Cons x show ?thesis by simp
qed

lemma consistent_single:
  assumes "consistent s" and "tabs s = [b]"
  shows "\<exists>buf. buffers s = [(b, buf)]"
proof -
  from assms have "distinct (map fst (buffers s))" and "set (map fst (buffers s)) = {b}"
    by (auto simp add: consistent_def)
  then have "map fst (buffers s) = [b]" by (rule distinct_singleton)
  then show ?thesis by (cases "buffers s") auto
qed


lemma closeBuffer_last_recovers:
  assumes "consistent s" and "connAllClosed s" and "tabs s = [b]"
  shows "closeBuffer b s =
         Some (s\<lparr>buffers := [(nextPtr s, untitled (''New '' @ decimal (newCount s)))],
                 nextPtr := nextPtr s + 1, tabs := [nextPtr s], cur := 0,
                 newCount := newCount s + 1,
                 calls := calls s @ [CloseBuffer b,
                                     CreateEmptyBuffer (''New '' @ decimal (newCount s))]\<rparr>)"
proof -
  from consistent_single [OF assms(1,3)] obtain buf where bs: "buffers s = [(b, buf)]" by blast
  define s1 where "s1 = s\<lparr>buffers := [], calls := calls s @ [CloseBuffer b]\<rparr>"
  have c: "closeBuffer b s = removeBuffer b s1"
    using bs by (simp add: closeBuffer_def s1_def)
  define s2 where "s2 = s1\<lparr>tabs := [], cur := (if 0 < cur s then cur s - 1
     else if 0 = cur s then (if cur s < 0 then cur s else cur s - 1) else cur s)\<rparr>"
  have r: "removeBuffer b s1 = newFile s2"
    using assms(2,3)
    by (simp add: removeBuffer_def getIndexFromBuffer_def Let_def allBuffersClosed_def
        s1_def s2_def)
  define nm where "nm = ''New '' @ decimal (newCount s)"
  define s3 where "s3 = s2\<lparr>newCount := newCount s + 1, buffers := [(nextPtr s, untitled nm)],
      nextPtr := nextPtr s + 1, calls := calls s @ [CloseBuffer b, CreateEmptyBuffer nm],
      tabs := [nextPtr s], cur := 0\<rparr>"
  have n: "newFile s2 = switchToIndex 0 s3"
    by (simp add: newFile_def createEmtpyBuffer_def addBuffer_def count_def untitled_def
        s1_def s2_def s3_def nm_def)
  have "bufferSwitched (nextPtr s) s3 = Some s3"
    by (rule bufferSwitched_untitled [of _ _ "untitled nm"])
       (simp_all add: s3_def untitled_def isFile_def)
  then have sw: "switchToIndex 0 s3 = Some s3"
    by (simp add: switchToIndex_def count_def s3_def)
  show ?thesis unfolding c r n sw
    by (simp add: s3_def s2_def s1_def nm_def)
qed

lemma remove1_last: "distinct xs \<Longrightarrow> xs \<noteq> [] \<Longrightarrow> remove1 (last xs) xs = butlast xs"
proof (induction xs rule: rev_induct)
  case Nil
  then show ?case by simp
next
  case (snoc x xs)
  then have "x \<notin> set xs" by simp
  then show ?case by (simp add: remove1_append)
qed

lemma closeBuffer_disconnected:
  assumes "consistent s" and "\<not> connSwitched s" and "\<not> connAllClosed s"
    and "b \<in> set (tabs s)"
  shows "\<exists>s'. closeBuffer b s = Some s' \<and> tabs s' = remove1 b (tabs s) \<and>
              consistent s' \<and> \<not> connSwitched s' \<and> \<not> connAllClosed s'"
proof -
  from consistent_tab_buffer [OF assms(1,4)] obtain buf where buf: "map_of (buffers s) b = Some buf"
    by blast
  define s1 where "s1 = s\<lparr>buffers := AList.delete b (buffers s), calls := calls s @ [CloseBuffer b]\<rparr>"
  have c: "closeBuffer b s = removeBuffer b s1" using buf by (simp add: closeBuffer_def s1_def)
  from indexOf_in [OF assms(4)] have k: "\<not> getIndexFromBuffer b s1 < 0"
    by (simp add: getIndexFromBuffer_def s1_def)
  define ts where "ts = remove1 b (tabs s1)"
  define c where "c = (if getIndexFromBuffer b s1 < cur s1 then cur s1 - 1
              else if getIndexFromBuffer b s1 = cur s1
                   then (if cur s1 < int (length ts) then cur s1 else cur s1 - 1)
                   else cur s1)"
  define s2 where "s2 = s1\<lparr>tabs := ts, cur := c\<rparr>"
  note u = removeBuffer_unfold [OF k ts_def c_def s2_def]
  have f: "\<not> connSwitched s2" "\<not> connAllClosed s2" using assms(2,3) by (simp_all add: s2_def s1_def)
  have r: "removeBuffer b s1 = Some s2"
    unfolding u using f by (simp add: allBuffersClosed_def bufferSwitched_def)
  have t: "tabs s2 = remove1 b (tabs s)" by (simp add: s2_def ts_def s1_def)
  have b2: "buffers s2 = AList.delete b (buffers s)" and n2: "nextPtr s2 = nextPtr s"
    by (simp_all add: s2_def s1_def)
  from assms(1) have dk: "distinct (map fst (buffers s))" and dt: "distinct (tabs s)"
    and st: "set (tabs s) = set (map fst (buffers s))"
    and np: "\<forall>k \<in> set (map fst (buffers s)). k < nextPtr s"
    by (simp_all add: consistent_def)
  have keys: "map fst (buffers s2) = removeAll b (map fst (buffers s))"
    unfolding b2 by (simp add: delete_keys)
  have c1: "distinct (map fst (buffers s2))" unfolding keys using dk by (rule distinct_removeAll)
  have c2: "distinct (tabs s2)" unfolding t using dt by (rule distinct_remove1)
  have c3: "set (tabs s2) = set (map fst (buffers s2))"
    unfolding keys t using dt st by simp
  have c4: "\<forall>k \<in> set (map fst (buffers s2)). k < nextPtr s2"
    unfolding keys n2 using np by auto
  have "consistent s2" unfolding consistent_def using c1 c2 c3 c4 by blast
  with c r t f show ?thesis by simp
qed

lemma consistent_empty: "consistent s \<Longrightarrow> tabs s = [] \<Longrightarrow> buffers s = []"
  by (simp add: consistent_def)

lemma closeAllFiles_loop_disconnected:
  assumes "consistent s" and "\<not> connSwitched s" and "\<not> connAllClosed s"
  shows "\<exists>s'. closeAllFiles_loop (count s - 1) s = Some s' \<and> tabs s' = [] \<and> buffers s' = []"
  using assms
proof (induction "length (tabs s)" arbitrary: s)
  case 0
  then have "count s - 1 < 0" and "tabs s = []" by (simp_all add: count_def)
  with consistent_empty [OF "0.prems"(1)] show ?case
    by (subst closeAllFiles_loop.simps) simp
next
  case (Suc n)
  then have ne: "tabs s \<noteq> []" by auto
  let ?b = "last (tabs s)"
  from ne have mem: "?b \<in> set (tabs s)" by simp
  from ne Suc.hyps(2) have g: "getBufferFromIndex (count s - 1) s = Some ?b"
    by (simp add: getBufferFromIndex_def count_def last_conv_nth nat_diff_distrib)
  from closeBuffer_disconnected [OF Suc.prems mem] obtain s1 where
    cb: "closeBuffer ?b s = Some s1" and t: "tabs s1 = remove1 ?b (tabs s)"
    and c: "consistent s1" and f: "\<not> connSwitched s1" "\<not> connAllClosed s1"
    by blast
  from Suc.prems(1) have "distinct (tabs s)" by (simp add: consistent_def)
  from remove1_last [OF this ne] t have t': "tabs s1 = butlast (tabs s)" by simp
  with Suc.hyps(2) have l: "n = length (tabs s1)" by simp
  from t' ne have cnt: "count s1 - 1 = count s - 1 - 1"
    by (cases "tabs s") (simp_all add: count_def)
  from Suc.hyps(1) [OF l c f] cnt obtain s' where
    "closeAllFiles_loop (count s - 1 - 1) s1 = Some s'" and "tabs s' = []" and "buffers s' = []"
    by auto
  moreover from ne have "count s - 1 \<ge> 0" by (cases "tabs s") (simp_all add: count_def)
  ultimately show ?case using g cb
    by (subst closeAllFiles_loop.simps) simp
qed

lemma closeEvent_closes_all:
  assumes "consistent s" and "checkBuffersBeforeClose 0 (count s) s = Some (True, s1)"
  shows "\<exists>s'. closeEvent s = Some (True, s') \<and> tabs s' = [] \<and> buffers s' = []"
proof -
  from checkBuffersBeforeClose_frame [OF assms(2)] have "passFrame s s1" .
  from passFrame_consistent [OF assms(1) this] have c1: "consistent s1" .
  define s2 where "s2 = s1\<lparr>connSwitched := False, connAllClosed := False\<rparr>"
  have c2: "consistent s2" using c1 by (simp add: consistent_def s2_def)
  have f2: "\<not> connSwitched s2" "\<not> connAllClosed s2" by (simp_all add: s2_def)
  have "switchToIndex (count s2 - 1) s2 =
        Some (if 0 \<le> count s2 - 1 \<and> count s2 - 1 < count s2 then s2\<lparr>cur := count s2 - 1\<rparr>
              else s2)"
    using f2 by (simp add: switchToIndex_def bufferSwitched_def)
  then obtain s3 where sw: "switchToIndex (count s2 - 1) s2 = Some s3"
    and s3: "s3 = s2 \<or> s3 = s2\<lparr>cur := count s2 - 1\<rparr>"
    by (cases "0 \<le> count s2 - 1 \<and> count s2 - 1 < count s2") simp_all
  from s3 have e3: "tabs s3 = tabs s2 \<and> buffers s3 = buffers s2 \<and> nextPtr s3 = nextPtr s2 \<and>
      connSwitched s3 = connSwitched s2 \<and> connAllClosed s3 = connAllClosed s2"
    by auto
  with c2 f2 have c3: "consistent s3" and f3: "\<not> connSwitched s3" "\<not> connAllClosed s3"
    by (simp_all add: consistent_def)
  from closeAllFiles_loop_disconnected [OF c3 f3] obtain s' where
    l: "closeAllFiles_loop (count s3 - 1) s3 = Some s'" and e: "tabs s' = []" "buffers s' = []"
    by blast
  have "closeAllFiles True s2 = Some s'" using sw l by (simp add: closeAllFiles_def)
  then have "closeEvent s = Some (True, s')"
    using assms(2) by (simp add: closeEvent_def s2_def)
  with e show ?thesis by simp
qed

lemma closeBuffer_keeps_others:
  assumes "consistent s" and "b \<in> set (tabs s)" and "remove1 b (tabs s) \<noteq> []"
  shows "\<exists>s'. closeBuffer b s = Some s' \<and> tabs s' = remove1 b (tabs s) \<and> consistent s' \<and>
              connAllClosed s' = connAllClosed s \<and> nextPtr s' = nextPtr s \<and>
              newCount s' = newCount s"
proof -
  from consistent_tab_buffer [OF assms(1,2)] obtain buf where buf: "map_of (buffers s) b = Some buf"
    by blast
  define s1 where "s1 = s\<lparr>buffers := AList.delete b (buffers s), calls := calls s @ [CloseBuffer b]\<rparr>"
  have c: "closeBuffer b s = removeBuffer b s1" using buf by (simp add: closeBuffer_def s1_def)
  from indexOf_in [OF assms(2)] have k: "\<not> getIndexFromBuffer b s1 < 0"
    by (simp add: getIndexFromBuffer_def s1_def)
  define ts where "ts = remove1 b (tabs s1)"
  define c where "c = (if getIndexFromBuffer b s1 < cur s1 then cur s1 - 1
              else if getIndexFromBuffer b s1 = cur s1
                   then (if cur s1 < int (length ts) then cur s1 else cur s1 - 1)
                   else cur s1)"
  define s2 where "s2 = s1\<lparr>tabs := ts, cur := c\<rparr>"
  note u = removeBuffer_unfold [OF k ts_def c_def s2_def]
  have ne: "ts \<noteq> []" using assms(3) by (simp add: ts_def s1_def)
  have t: "tabs s2 = remove1 b (tabs s)" by (simp add: s2_def ts_def s1_def)
  have b2: "buffers s2 = AList.delete b (buffers s)" and n2: "nextPtr s2 = nextPtr s"
    and o2: "connAllClosed s2 = connAllClosed s" "newCount s2 = newCount s"
    by (simp_all add: s2_def s1_def)
  from assms(1) have dk: "distinct (map fst (buffers s))" and dt: "distinct (tabs s)"
    and st: "set (tabs s) = set (map fst (buffers s))"
    and np: "\<forall>k \<in> set (map fst (buffers s)). k < nextPtr s"
    by (simp_all add: consistent_def)
  have keys: "map fst (buffers s2) = removeAll b (map fst (buffers s))"
    unfolding b2 by (simp add: delete_keys)
  have c1: "distinct (map fst (buffers s2))" unfolding keys using dk by (rule distinct_removeAll)
  have c2: "distinct (tabs s2)" unfolding t using dt by (rule distinct_remove1)
  have c3: "set (tabs s2) = set (map fst (buffers s2))"
    unfolding keys t using dt st by simp
  have c4: "\<forall>k \<in> set (map fst (buffers s2)). k < nextPtr s2"
    unfolding keys n2 using np by auto
  have cs2: "consistent s2" unfolding consistent_def using c1 c2 c3 c4 by blast
  show ?thesis
  proof (cases "getIndexFromBuffer b s1 = cur s1")
    case False
    with u ne have "removeBuffer b s1 = Some s2" by simp
    with c t cs2 n2 o2 show ?thesis by simp
  next
    case True
    with u ne have r: "removeBuffer b s1 = bufferSwitched (ts ! nat c) s2" by simp
    have lt: "getIndexFromBuffer b s1 < int (length (tabs s1))"
      using indexOf_range [of "tabs s1" b] by (simp add: getIndexFromBuffer_def)
    have len: "length (tabs s1) = Suc (length ts)"
      using assms(2) by (simp add: ts_def s1_def length_remove1) (cases "tabs s", auto)
    from True k lt len ne have "0 \<le> c \<and> c < int (length ts)"
      by (cases ts) (auto simp add: c_def)
    then have "nat c < length ts" by (simp add: nat_less_iff)
    then have "ts ! nat c \<in> set (tabs s2)" by (simp add: s2_def)
    from consistent_tab_buffer [OF cs2 this] obtain nb where "map_of (buffers s2) (ts ! nat c) = Some nb"
      by blast
    from bufferSwitched_total [OF this] obtain s' where sw: "bufferSwitched (ts ! nat c) s2 = Some s'"
      by blast
    from bufferSwitched_passFrame [OF sw] have f: "passFrame s2 s'" by simp
    then have "tabs s' = tabs s2" "connAllClosed s' = connAllClosed s2" "nextPtr s' = nextPtr s2"
      "newCount s' = newCount s2"
      by (simp_all add: passFrame_def sameTabs_def)
    with c r sw t n2 o2 passFrame_consistent [OF cs2 f] show ?thesis by simp
  qed
qed

lemma closeAllFiles_loop_recovers:
  assumes "consistent s" and "connAllClosed s" and "tabs s \<noteq> []"
  shows "\<exists>s'. closeAllFiles_loop (count s - 1) s = Some s' \<and> tabs s' = [nextPtr s] \<and>
              buffers s' = [(nextPtr s, untitled (''New '' @ decimal (newCount s)))]"
  using assms
proof (induction "length (tabs s)" arbitrary: s)
  case 0
  then show ?case by simp
next
  case (Suc n)
  let ?b = "last (tabs s)"
  from Suc.prems(3) have mem: "?b \<in> set (tabs s)" by simp
  from Suc.prems(3) Suc.hyps(2) have g: "getBufferFromIndex (count s - 1) s = Some ?b"
    by (simp add: getBufferFromIndex_def count_def last_conv_nth nat_diff_distrib)
  from Suc.prems(3) have ge: "count s - 1 \<ge> 0" by (cases "tabs s") (simp_all add: count_def)
  from Suc.prems(1) have dt: "distinct (tabs s)" by (simp add: consistent_def)
  note rl = remove1_last [OF dt Suc.prems(3)]
  show ?case
  proof (cases "butlast (tabs s) = []")
    case True
    with Suc.prems(3) obtain x where one: "tabs s = [x]"
      by (cases "tabs s" rule: rev_cases) auto
    then have lx: "last (tabs s) = x" by simp
    from closeBuffer_last_recovers [OF Suc.prems(1,2) one] lx obtain s1 where
      cb: "closeBuffer ?b s = Some s1" and t1: "tabs s1 = [nextPtr s]"
      and b1: "buffers s1 = [(nextPtr s, untitled (''New '' @ decimal (newCount s)))]"
      by simp
    from one have "count s - 1 - 1 < 0" by (simp add: count_def)
    then have "closeAllFiles_loop (count s - 1 - 1) s1 = Some s1"
      by (subst closeAllFiles_loop.simps) simp
    with g cb ge t1 b1 show ?thesis by (subst closeAllFiles_loop.simps) simp
  next
    case False
    with rl have ne: "remove1 ?b (tabs s) \<noteq> []" by simp
    from closeBuffer_keeps_others [OF Suc.prems(1) mem ne] rl obtain s1 where
      cb: "closeBuffer ?b s = Some s1" and t1: "tabs s1 = butlast (tabs s)"
      and c1: "consistent s1" and o1: "connAllClosed s1 = connAllClosed s"
      "nextPtr s1 = nextPtr s" "newCount s1 = newCount s"
      by auto
    from t1 Suc.hyps(2) have l: "n = length (tabs s1)" by simp
    from t1 Suc.prems(3) have cnt: "count s1 - 1 = count s - 1 - 1"
      by (cases "tabs s") (simp_all add: count_def)
    from Suc.hyps(1) [OF l c1] o1 Suc.prems(2) False t1 cnt obtain s' where
      "closeAllFiles_loop (count s - 1 - 1) s1 = Some s'" and "tabs s' = [nextPtr s]"
      and "buffers s' = [(nextPtr s, untitled (''New '' @ decimal (newCount s)))]"
      by auto
    with g cb ge show ?thesis by (subst closeAllFiles_loop.simps) simp
  qed
qed

lemma closeAllFiles_recovers:
  assumes "consistent s" and "connAllClosed s" and "tabs s \<noteq> []"
    and "checkBuffersBeforeClose 0 (count s) s = Some (True, s1)"
  shows "\<exists>s'. closeAllFiles False s = Some s' \<and> tabs s' = [nextPtr s] \<and>
              buffers s' = [(nextPtr s, untitled (''New '' @ decimal (newCount s)))]"
proof -
  from checkBuffersBeforeClose_frame [OF assms(4)] have f1: "passFrame s s1" .
  from passFrame_consistent [OF assms(1) f1] have c1: "consistent s1" .
  from switchToIndex_total [OF c1] obtain s2 where sw: "switchToIndex (count s1 - 1) s1 = Some s2"
    by blast
  from switchToIndex_passFrame [OF sw] have f2: "passFrame s1 s2" by simp
  have f: "passFrame s s2" using passFrame_trans [OF f1 f2] .
  from passFrame_consistent [OF assms(1) f] have c2: "consistent s2" .
  from f assms(2,3) have o: "connAllClosed s2" "tabs s2 \<noteq> []" "nextPtr s2 = nextPtr s"
    "newCount s2 = newCount s"
    by (simp_all add: passFrame_def sameTabs_def)
  from closeAllFiles_loop_recovers [OF c2 o(1,2)] o(3,4) obtain s' where
    "closeAllFiles_loop (count s2 - 1) s2 = Some s'" and "tabs s' = [nextPtr s]"
    and "buffers s' = [(nextPtr s, untitled (''New '' @ decimal (newCount s)))]"
    by auto
  with assms(4) sw show ?thesis by (simp add: closeAllFiles_def)
qed

section \<open>The steps of a checking pass\<close>

lemma getCurrentBuffer_switched:
  "getBufferFromIndex i s = Some b \<Longrightarrow> getCurrentBuffer (s\<lparr>cur := i\<rparr>) = Some b"
  by (auto simp add: getCurrentBuffer_def getBufferFromIndex_def currentIndex_def count_def
      split: if_splits)

lemma bufferActivated_steps:
  assumes "getCurrentBuffer s = Some b" and "map_of (buffers s) b = Some buf"
    and "\<not> is_save_point buf" and "bufferActivated b s = Some s'"
  shows "passStep\<^sup>*\<^sup>* s s'"
proof (cases "checkForBufferStateChange buf s = Modified")
  case True
  with assms(2,4) have "reloadBuffer b s = Some s'"
    by (auto simp add: bufferActivated_def checkBufferForModification_def split: option.splits)
  with assms(1,2,3) True have "silentReload b s s'" by (simp add: silentReload_def)
  then show ?thesis by (blast intro: passStep.step_reload)
next
  case False
  with assms(2,4) have "s' = s"
    by (auto simp add: bufferActivated_def checkBufferForModification_def Let_def
        split: if_splits)
  then show ?thesis by simp
qed

lemma bufferSwitched_steps:
  assumes "getCurrentBuffer s = Some b" and "map_of (buffers s) b = Some buf"
    and "\<not> is_save_point buf" and "bufferSwitched b s = Some s'"
  shows "passStep\<^sup>*\<^sup>* s s'"
  using assms bufferActivated_steps [of s b buf s']
  by (auto simp add: bufferSwitched_def split: if_splits)

lemma switchToIndex_steps:
  assumes "getBufferFromIndex i s = Some b" and "map_of (buffers s) b = Some buf"
    and "\<not> is_save_point buf" and "switchToIndex i s = Some s'"
  shows "passStep\<^sup>*\<^sup>* s s'"
proof -
  from assms(1) have r: "0 \<le> i" "i < count s" and b: "tabs s ! nat i = b"
    by (auto simp add: getBufferFromIndex_def split: if_splits)
  let ?t = "s\<lparr>cur := i\<rparr>"
  have "passStep s ?t" using r by (rule passStep.step_switch)
  moreover have "bufferSwitched b ?t = Some s'" using assms(4) r b by (simp add: switchToIndex_def)
  then have "passStep\<^sup>*\<^sup>* ?t s'"
    using bufferSwitched_steps [of ?t b buf s'] getCurrentBuffer_switched [OF assms(1)] assms(2,3)
    by simp
  ultimately show ?thesis by (rule converse_rtranclp_into_rtranclp)
qed

lemma switchToBuffer_steps:
  assumes "b \<in> set (tabs s)" and "map_of (buffers s) b = Some buf"
    and "\<not> is_save_point buf" and "switchToBuffer b s = Some s'"
  shows "passStep\<^sup>*\<^sup>* s s'"
proof -
  from indexOf_in [OF assms(1)] indexOf_range [of "tabs s" b]
  have "getBufferFromIndex (indexOf (tabs s) b) s = Some b"
    by (simp add: getBufferFromIndex_def count_def)
  from switchToIndex_steps [OF this assms(2,3)] assms(4) show ?thesis
    by (simp add: switchToBuffer_def getIndexFromBuffer_def)
qed

lemma saveCurrentFileAsDialog_steps:
  assumes "getCurrentBuffer s = Some b" and "map_of (buffers s) b = Some buf"
    and "\<not> is_save_point buf" and "\<not> isFile buf"
    and "saveCurrentFileAsDialog s = Some (r, s')"
  shows "passStep\<^sup>*\<^sup>* s s'"
proof (cases "fileNames s (chosen s) = []")
  case True
  with assms have "s' = s\<lparr>chosen := chosen s + 1\<rparr>"
    by (simp add: saveCurrentFileAsDialog_def)
  with True show ?thesis by (blast intro: passStep.step_dismiss)
next
  case False
  with assms
  have "saveBufferAs b (fileNames s (chosen s)) (s\<lparr>chosen := chosen s + 1\<rparr>) = Some (r, s')"
    by (simp add: saveCurrentFileAsDialog_def saveFileAs_def)
  from passStep.step_saveAs [OF assms(1,2,3,4) False this] show ?thesis by blast
qed

lemma saveFile_steps:
  assumes "getCurrentBuffer s = Some b" and "saveFile b s = Some (r, s')"
  shows "passStep\<^sup>*\<^sup>* s s'"
proof -
  obtain buf where buf: "map_of (buffers s) b = Some buf"
    using assms(2) by (auto simp add: saveFile_def split: option.splits)
  show ?thesis
  proof (cases "is_save_point buf")
    case True
    with assms buf show ?thesis by (auto simp add: saveFile_def)
  next
    case False
    show ?thesis
    proof (cases "isFile buf")
      case True
      with assms(2) buf False have "saveBuffer b s = Some (r, s')"
        by (auto simp add: saveFile_def split: option.splits if_splits)
      from passStep.step_save [OF assms(1) buf False True this] show ?thesis by blast
    next
      case nf: False
      with assms(2) buf False obtain s1 where a: "switchToBuffer b s = Some s1"
        and d: "saveCurrentFileAsDialog s1 = Some (r, s')"
        by (auto simp add: saveFile_def split: option.splits)
      have mem: "b \<in> set (tabs s)"
        using assms(1) getBufferFromIndex_in_tabs by (simp add: getCurrentBuffer_def)
      let ?i = "indexOf (tabs s) b"
      from indexOf_in [OF mem] indexOf_range [of "tabs s" b]
      have g: "getBufferFromIndex ?i s = Some b"
        by (simp add: getBufferFromIndex_def count_def)
      from switchToIndex_untitled [OF g buf nf] a have s1: "s1 = s\<lparr>cur := ?i\<rparr>"
        by (simp add: switchToBuffer_def getIndexFromBuffer_def)
      have c1: "getCurrentBuffer s1 = Some b" using getCurrentBuffer_switched [OF g] s1 by simp
      have m1: "map_of (buffers s1) b = Some buf" using buf s1 by simp
      from switchToBuffer_steps [OF mem buf False a]
        saveCurrentFileAsDialog_steps [OF c1 m1 False nf d]
      show ?thesis by (rule rtranclp_trans)
    qed
  qed
qed

lemma passStep_passFrame:
  assumes "passStep s s'"
  shows "passFrame s s'"
  using assms
proof (cases rule: passStep.cases)
  case (step_switch i)
  then show ?thesis by (simp add: passFrame_def sameTabs_def editsKept_def savesKept_def)
next
  case (step_reload b)
  then have "reloadBuffer b s = Some s'" by (simp add: silentReload_def)
  from reloadBuffer_passFrame [OF this] show ?thesis by simp
next
  case step_prompt
  then show ?thesis by (simp add: passFrame_def sameTabs_def editsKept_def savesKept_def)
next
  case step_dismiss
  then show ?thesis by (simp add: passFrame_def sameTabs_def editsKept_def savesKept_def)
next
  case (step_save b buf r)
  then show ?thesis using saveBuffer_passFrame by blast
next
  case (step_saveAs b buf r)
  have f: "passFrame s (s\<lparr>chosen := chosen s + 1\<rparr>)"
    by (simp add: passFrame_def sameTabs_def editsKept_def savesKept_def)
  from step_saveAs saveBufferAs_passFrame have "passFrame (s\<lparr>chosen := chosen s + 1\<rparr>) s'" by blast
  with f show ?thesis by (rule passFrame_trans)
qed

lemma passSteps_passFrame: "passStep\<^sup>*\<^sup>* s s' \<Longrightarrow> passFrame s s'"
  by (induction rule: rtranclp_induct) (auto intro: passFrame_refl passFrame_trans passStep_passFrame)

lemma passStep_content:
  assumes "passStep s s'" and "map_of (buffers s) b = Some buf"
    and "map_of (buffers s') b = Some buf'" and "content buf' \<noteq> content buf"
  shows "silentReload b s s'"
  using assms(1)
proof (cases rule: passStep.cases)
  case (step_switch i)
  with assms show ?thesis by simp
next
  case (step_reload c)
  show ?thesis
  proof (cases "c = b")
    case True
    with step_reload show ?thesis by simp
  next
    case False
    from step_reload have "reloadBuffer c s = Some s'" by (simp add: silentReload_def)
    with False have "map_of (buffers s') b = map_of (buffers s) b"
      by (auto simp add: reloadBuffer_def update_conv' split: option.splits if_splits)
    with assms show ?thesis by simp
  qed
next
  case step_prompt
  with assms show ?thesis by simp
next
  case step_dismiss
  with assms show ?thesis by simp
next
  case (step_save c bufc r)
  with assms show ?thesis
    by (auto simp add: saveBuffer_def update_conv' split: option.splits if_splits)
next
  case (step_saveAs c bufc r)
  with assms show ?thesis
    by (auto simp add: saveBufferAs_def update_conv' split: option.splits if_splits)
qed

lemma passSteps_content:
  assumes "passStep\<^sup>*\<^sup>* s s'" and "map_of (buffers s) b = Some buf"
    and "map_of (buffers s') b = Some buf'" and "content buf' \<noteq> content buf"
  shows "\<exists>t t'. passStep\<^sup>*\<^sup>* s t \<and> silentReload b t t' \<and> passStep\<^sup>*\<^sup>* t' s'"
  using assms(1,3,4)
proof (induction arbitrary: buf' rule: rtranclp_induct)
  case base
  with assms(2) show ?case by simp
next
  case (step y z)
  from passSteps_passFrame [OF step.hyps(1)]
  have "map fst (buffers y) = map fst (buffers s)" by (simp add: passFrame_def sameTabs_def)
  from map_of_keys_eq [OF this assms(2)] obtain bufy where y: "map_of (buffers y) b = Some bufy"
    by blast
  show ?case
  proof (cases "content bufy = content buf")
    case True
    with step.prems have "content buf' \<noteq> content bufy" by simp
    from passStep_content [OF step.hyps(2) y step.prems(1) this] step.hyps(1)
    show ?thesis by blast
  next
    case False
    from step.IH [OF y False] obtain t t' where
      "passStep\<^sup>*\<^sup>* s t" "silentReload b t t'" "passStep\<^sup>*\<^sup>* t' y" by blast
    moreover from this(3) step.hyps(2) have "passStep\<^sup>*\<^sup>* t' z" by (rule rtranclp.rtrancl_into_rtrancl)
    ultimately show ?thesis by blast
  qed
qed


lemma checkBuffersBeforeClose_steps:
  assumes "consistent s" and "0 \<le> i" and "e \<le> count s"
    and "checkBuffersBeforeClose i e s = Some (ok, s')"
  shows "passStep\<^sup>*\<^sup>* s s'"
  using assms
proof (induction "nat (e - i)" arbitrary: i s)
  case 0
  then have "\<not> i < e" by simp
  from check_done [OF this] "0.prems"(4) show ?case by simp
next
  case (Suc n)
  from Suc.hyps(2) have lt: "i < e" and n: "n = nat (e - (i + 1))" by linarith+
  let ?b = "tabs s ! nat i"
  from lt Suc.prems have gb: "getBufferFromIndex i s = Some ?b"
    by (simp add: getBufferFromIndex_def)
  then have mem: "?b \<in> set (tabs s)" by (rule getBufferFromIndex_in_tabs)
  with Suc.prems(1) obtain buf where buf: "map_of (buffers s) ?b = Some buf"
    using consistent_tab_buffer by blast
  have step: "passStep\<^sup>*\<^sup>* t s'"
    if "passFrame s t" and "checkBuffersBeforeClose (i + 1) e t = Some (ok, s')" for t
  proof -
    from that(1) Suc.prems(1) have "consistent t" by (rule passFrame_consistent [rotated])
    moreover from that(1) Suc.prems(3) have "e \<le> count t" using passFrame_fields by fastforce
    moreover from Suc.prems(2) have "0 \<le> i + 1" by simp
    ultimately show ?thesis using Suc.hyps(1) [OF n] that(2) by blast
  qed
  show ?case
  proof (cases "is_save_point buf")
    case True
    from check_clean [OF lt gb buf True] Suc.prems(4) step [OF passFrame_refl] show ?thesis by simp
  next
    case False
    from switchToIndex_total [OF Suc.prems(1)] obtain s1 where sw: "switchToIndex i s = Some s1"
      by blast
    from switchToIndex_passFrame [OF sw] gb
    have f1: "passFrame s s1" and a1: "asked s1 = asked s" and c1: "cur s1 = i"
      by (auto simp add: getBufferFromIndex_def split: if_splits)
    from passFrame_fields [OF f1] have an1: "answers s1 = answers s" and t1: "tabs s1 = tabs s"
      by simp_all
    have st1: "passStep\<^sup>*\<^sup>* s s1" using switchToIndex_steps [OF gb buf False sw] .
    let ?s2 = "s1\<lparr>asked := asked s1 + 1\<rparr>"
    have "passStep s1 ?s2" by (rule passStep.step_prompt)
    with st1 have st2: "passStep\<^sup>*\<^sup>* s ?s2" by (rule rtranclp.rtrancl_into_rtrancl)
    have f2: "passFrame s ?s2" using passFrame_trans [OF f1 passFrame_asked] .
    show ?thesis
    proof (cases "answers s (asked s) = Cancel")
      case True
      then have "answers s1 (asked s1) = Cancel" using an1 a1 by simp
      from check_cancel [OF lt gb buf False sw this] Suc.prems(4) st2 show ?thesis by simp
    next
      case nc: False
      then have nc1: "answers s1 (asked s1) \<noteq> Cancel" using an1 a1 by simp
      show ?thesis
      proof (cases "answers s (asked s) = Save")
        case nsv: False
        then have "answers s1 (asked s1) \<noteq> Save" using an1 a1 by simp
        from check_discard [OF lt gb buf False sw nc1 this] Suc.prems(4)
        have "checkBuffersBeforeClose (i + 1) e ?s2 = Some (ok, s')" by simp
        from st2 step [OF f2 this] show ?thesis by (rule rtranclp_trans)
      next
        case sv: True
        then have sv1: "answers s1 (asked s1) = Save" using an1 a1 by simp
        have "consistent ?s2" using passFrame_consistent [OF Suc.prems(1) f2] .
        moreover have "?b \<in> set (tabs ?s2)" using mem t1 by simp
        ultimately obtain r s3 where sf: "saveFile ?b ?s2 = Some (r, s3)"
          using saveFile_total by blast
        have "getBufferFromIndex i ?s2 = Some ?b"
          using gb getBufferFromIndex_sameTabs [of ?s2 s i] t1 by simp
        then have "getCurrentBuffer ?s2 = Some ?b"
          using c1 by (simp add: getCurrentBuffer_def currentIndex_def)
        from saveFile_steps [OF this sf] have st3: "passStep\<^sup>*\<^sup>* ?s2 s3" .
        from st2 st3 have st03: "passStep\<^sup>*\<^sup>* s s3" by (rule rtranclp_trans)
        from saveFile_passFrame [OF sf] have f3: "passFrame ?s2 s3" by simp
        have f03: "passFrame s s3" using passFrame_trans [OF f2 f3] .
        note eq = check_save [OF lt gb buf False sw sv1 sf]
        show ?thesis
        proof (cases r)
          case False
          with eq Suc.prems(4) have "s' = s3" by simp
          with st03 show ?thesis by simp
        next
          case True
          with eq Suc.prems(4) have "checkBuffersBeforeClose (i + 1) e s3 = Some (ok, s')"
            by simp
          from st03 step [OF f03 this] show ?thesis by (rule rtranclp_trans)
        qed
      qed
    qed
  qed
qed

lemma checkingPass_steps:
  assumes "consistent s" and "0 \<le> currentIndex s" and "currentIndex s < count s"
    and "checkingPass op s = Some (ok, s')"
  shows "passStep\<^sup>*\<^sup>* s s'"
proof (cases "op = CloseAllExceptActive")
  case False
  then show ?thesis
    using checkBuffersBeforeClose_steps [OF assms(1), of 0 "count s" ok s']
      checkBuffersBeforeClose_steps [OF assms(1), of 0 "currentIndex s" ok s']
      checkBuffersBeforeClose_steps [OF assms(1), of "currentIndex s" "count s" ok s'] assms(2,3,4)
    by (cases op) (simp_all add: checkingPass_def)
next
  case True
  from checkBuffersBeforeClose_pass [OF assms(1), of 0 "currentIndex s"] assms(3)
  obtain ok1 s1 where p1: "checkBuffersBeforeClose 0 (currentIndex s) s = Some (ok1, s1)"
    and f1: "passFrame s s1"
    by auto
  from assms(3) have le: "currentIndex s \<le> count s" by simp
  have st1: "passStep\<^sup>*\<^sup>* s s1"
    using checkBuffersBeforeClose_steps [OF assms(1) _ le p1] by simp
  show ?thesis
  proof (cases ok1)
    case False
    with p1 True assms(4) have "s' = s1" by (simp add: checkingPass_def)
    with st1 show ?thesis by simp
  next
    case ok1: True
    have c1: "consistent s1" using passFrame_consistent [OF assms(1) f1] .
    from True p1 ok1 assms(4)
    have "checkBuffersBeforeClose (currentIndex s + 1) (count s1) s1 = Some (ok, s')"
      by (simp add: checkingPass_def)
    from checkBuffersBeforeClose_steps [OF c1 _ _ this] assms(2)
    have "passStep\<^sup>*\<^sup>* s1 s'" by simp
    with st1 show ?thesis by (rule rtranclp_trans)
  qed
qed

lemma newCalls_refl: "newCalls s s = []"
  by (simp add: newCalls_def)

lemma newCalls_append:
  assumes "passFrame s y" and "passFrame y z"
  shows "newCalls s z = newCalls s y @ newCalls y z"
proof -
  from assms obtain n1 n2 where "calls y = calls s @ n1" and "calls z = calls y @ n2"
    unfolding passFrame_def editsKept_def by blast
  then show ?thesis by (simp add: newCalls_def)
qed

lemma passStep_save_call:
  assumes "passStep y z" and "map_of (buffers y) b = Some bufy"
    and "map_of (buffers z) b = Some bufz" and "SaveBuffer b \<in> set (newCalls y z)"
  shows "\<not> is_save_point bufy \<and>
         (\<exists>p. fileInfo bufy = Some p \<and> (\<not> writeFails y p \<longrightarrow> is_save_point bufz))"
  using assms(1)
proof (cases rule: passStep.cases)
  case (step_switch i)
  with assms(4) show ?thesis by (simp add: newCalls_def)
next
  case (step_reload c)
  with assms(4) show ?thesis
    by (auto simp add: newCalls_def silentReload_def reloadBuffer_def split: option.splits if_splits)
next
  case step_prompt
  with assms(4) show ?thesis by (simp add: newCalls_def)
next
  case step_dismiss
  with assms(4) show ?thesis by (simp add: newCalls_def)
next
  case (step_save c bufc r)
  from step_save(5) have "newCalls y z = [SaveBuffer c]"
    by (auto simp add: newCalls_def saveBuffer_def split: option.splits if_splits)
  with assms(4) have cb: "c = b" by simp
  with step_save assms(2) have eq: "bufc = bufy" by simp
  from step_save(4) eq obtain p where p: "fileInfo bufy = Some p" by (auto simp add: isFile_def)
  have "\<not> writeFails y p \<longrightarrow> is_save_point bufz"
    using step_save(5) cb assms(2,3) p step_save(3) eq
    by (auto simp add: saveBuffer_def is_save_point_def update_conv' split: if_splits)
  with step_save(3) eq p show ?thesis by blast
next
  case (step_saveAs c bufc r)
  from step_saveAs(6) have "\<exists>q. newCalls y z = [SaveBufferAs c q]"
    by (auto simp add: newCalls_def saveBufferAs_def split: option.splits if_splits)
  with assms(4) show ?thesis by auto
qed

lemma passStep_saveAs_call:
  assumes "passStep y z" and "map_of (buffers z) b = Some bufz"
    and "SaveBufferAs b p \<in> set (newCalls y z)" and "\<not> writeFails y p"
  shows "is_save_point bufz"
  using assms(1)
proof (cases rule: passStep.cases)
  case (step_switch i)
  with assms(3) show ?thesis by (simp add: newCalls_def)
next
  case (step_reload c)
  with assms(3) show ?thesis
    by (auto simp add: newCalls_def silentReload_def reloadBuffer_def split: option.splits if_splits)
next
  case step_prompt
  with assms(3) show ?thesis by (simp add: newCalls_def)
next
  case step_dismiss
  with assms(3) show ?thesis by (simp add: newCalls_def)
next
  case (step_save c bufc r)
  from step_save(5) have "newCalls y z = [SaveBuffer c]"
    by (auto simp add: newCalls_def saveBuffer_def split: option.splits if_splits)
  with assms(3) show ?thesis by simp
next
  case (step_saveAs c bufc r)
  let ?q = "fileNames y (chosen y)"
  from step_saveAs(2,6) have n: "newCalls y z = [SaveBufferAs c ?q]"
    by (auto simp add: newCalls_def saveBufferAs_def split: option.splits if_splits)
  with assms(3) have cb: "c = b" and q: "?q = p" by simp_all
  show ?thesis
    using step_saveAs(2,6) cb q assms(2,4)
    by (auto simp add: saveBufferAs_def is_save_point_def update_conv' split: if_splits)
qed

lemma passSteps_saved:
  assumes "passStep\<^sup>*\<^sup>* s s'" and "map_of (buffers s) b = Some buf"
    and "map_of (buffers s') b = Some buf'"
    and "SaveBuffer b \<in> set (newCalls s s') \<and> fileInfo buf = Some p \<or>
         SaveBufferAs b p \<in> set (newCalls s s')"
    and "\<not> writeFails s p"
  shows "is_save_point buf'"
  using assms(1,3,4)
proof (induction arbitrary: buf' rule: rtranclp_induct)
  case base
  then show ?case by (simp add: newCalls_refl)
next
  case (step y z)
  from passSteps_passFrame [OF step.hyps(1)] have fy: "passFrame s y" .
  from passStep_passFrame [OF step.hyps(2)] have fz: "passFrame y z" .
  from fy have "map fst (buffers y) = map fst (buffers s)" by (simp add: passFrame_def sameTabs_def)
  from map_of_keys_eq [OF this assms(2)] obtain bufy where y: "map_of (buffers y) b = Some bufy"
    by blast
  from fy have wf: "writeFails y = writeFails s" by (simp add: passFrame_def sameTabs_def)
  from fz y step.prems(1) have keep: "buf' = bufy \<or> is_save_point buf'"
    unfolding passFrame_def savesKept_def by blast
  from fy assms(2) y have orig: "bufy = buf \<or> is_save_point bufy"
    unfolding passFrame_def savesKept_def by blast
  note nc = newCalls_append [OF fy fz]
  show ?case
  proof (cases "SaveBuffer b \<in> set (newCalls s y) \<and> fileInfo buf = Some p \<or>
                SaveBufferAs b p \<in> set (newCalls s y)")
    case True
    from step.IH [OF y True] keep show ?thesis by auto
  next
    case False
    with step.prems(2) nc
    consider (sv) "SaveBuffer b \<in> set (newCalls y z)" "fileInfo buf = Some p"
      | (sa) "SaveBufferAs b p \<in> set (newCalls y z)"
      by auto
    then show ?thesis
    proof cases
      case sv
      from passStep_save_call [OF step.hyps(2) y step.prems(1) sv(1)] obtain q where
        d: "\<not> is_save_point bufy" and q: "fileInfo bufy = Some q"
        and w: "\<not> writeFails y q \<longrightarrow> is_save_point buf'"
        by blast
      from d orig have "bufy = buf" by simp
      with q sv(2) have "q = p" by simp
      with w wf assms(5) show ?thesis by simp
    next
      case sa
      from passStep_saveAs_call [OF step.hyps(2) step.prems(1) sa] wf assms(5) show ?thesis
        by simp
    qed
  qed
qed

section \<open>Closing the initial document\<close>

text \<open>
  C3. Closing a file (\<^verbatim>\<open>closeFile\<close> at any index, or \<^verbatim>\<open>closeCurrentFile\<close>) when exactly
  one buffer is open and that buffer is untitled and at save-point changes nothing: the
  result is the state it started from.
\<close>

theorem closeFile_initial_state_noop:
  assumes "tabs s = [b]" and "map_of (buffers s) b = Some buf"
    and "\<not> isFile buf" and "is_save_point buf"
  shows "closeFile index s = Some s \<and> closeCurrentFile s = Some s"
  using assms
  by (simp add: closeCurrentFile_def closeFile_def isInInitialState_def count_def
      getBufferFromIndex_def)

theorem closeFile_initial_state_noop_witness:
  "tabs initialWindow = [0] \<and>
   map_of (buffers initialWindow) 0 = Some (untitled ''New 1'') \<and>
   \<not> isFile (untitled ''New 1'') \<and> is_save_point (untitled ''New 1'') \<and>
   closeFile 5 initialWindow = Some initialWindow \<and>
   closeCurrentFile initialWindow = Some initialWindow"
  using closeFile_initial_state_noop [of initialWindow 0 "untitled ''New 1''" 5]
  by (simp add: initialWindow_def emptyWindow_def untitled_def isFile_def is_save_point_def)

section \<open>Saving\<close>

text \<open>
  C8. For a buffer at save-point \<^verbatim>\<open>saveFile\<close> returns true and the state is the one it
  started from (nothing is written, the registry is not called). For a dirty file-backed
  buffer its result is the registry's \<^verbatim>\<open>saveBuffer\<close> result; when the write fails that
  result is false and the state differs from the start only by the recorded call, so the
  buffer is still dirty and open.
\<close>

theorem saveFile_save_point_or_write_failure:
  assumes "map_of (buffers s) b = Some buf"
  shows "(is_save_point buf \<longrightarrow> saveFile b s = Some (True, s)) \<and>
         (\<not> is_save_point buf \<and> isFile buf \<longrightarrow> saveFile b s = saveBuffer b s) \<and>
         (\<not> is_save_point buf \<and> fileInfo buf = Some p \<and> writeFails s p \<longrightarrow>
            saveFile b s = Some (False, s\<lparr>calls := calls s @ [SaveBuffer b]\<rparr>))"
  using assms
  by (auto simp add: saveFile_def saveBuffer_def isFile_def is_save_point_def
      split: option.splits)

theorem saveFile_save_point_or_write_failure_witness:
  "saveFile 0 (threeTabs\<lparr>writeFails := (\<lambda>p. p = ''/b.txt'')\<rparr>) =
     Some (True, threeTabs\<lparr>writeFails := (\<lambda>p. p = ''/b.txt'')\<rparr>) \<and>
   saveFile 1 (threeTabs\<lparr>writeFails := (\<lambda>p. p = ''/b.txt'')\<rparr>) =
     Some (False, threeTabs\<lparr>writeFails := (\<lambda>p. p = ''/b.txt''), calls := [SaveBuffer 1]\<rparr>) \<and>
   saveFile 1 threeTabs = saveBuffer 1 threeTabs"
proof -
  let ?w = "threeTabs\<lparr>writeFails := (\<lambda>p. p = ''/b.txt'')\<rparr>"
  let ?a = "fileBuffer ''/a.txt'' ''aaa'' 1"
  let ?b = "(fileBuffer ''/b.txt'' ''bbb edited'' 2)\<lparr>savePoint := False\<rparr>"
  have a: "map_of (buffers ?w) 0 = Some ?a" and b: "map_of (buffers ?w) 1 = Some ?b"
    and b': "map_of (buffers threeTabs) 1 = Some ?b"
    by (simp_all add: threeTabs_def emptyWindow_def untitled_def fileBuffer_def)
  have c: "is_save_point ?a" "\<not> is_save_point ?b" "isFile ?b" "fileInfo ?b = Some ''/b.txt''"
    "writeFails ?w ''/b.txt''"
    by (simp_all add: threeTabs_def emptyWindow_def untitled_def fileBuffer_def
        getCurrentBuffer_def getBufferFromIndex_def currentIndex_def count_def isFile_def
        is_save_point_def)
  have d: "?w\<lparr>calls := calls ?w @ [SaveBuffer 1]\<rparr> = ?w\<lparr>calls := [SaveBuffer 1]\<rparr>"
    by (simp add: threeTabs_def emptyWindow_def)
  have "saveFile 0 ?w = Some (True, ?w)"
    using saveFile_save_point_or_write_failure [OF a] c by blast
  moreover have "saveFile 1 ?w = Some (False, ?w\<lparr>calls := [SaveBuffer 1]\<rparr>)"
    using saveFile_save_point_or_write_failure [OF b, of "''/b.txt''"] c unfolding d by blast
  moreover have "saveFile 1 threeTabs = saveBuffer 1 threeTabs"
    using saveFile_save_point_or_write_failure [OF b'] c by blast
  ultimately show ?thesis by blast
qed

section \<open>External-modification reconciliation by case\<close>

text \<open>
  C6. \<^verbatim>\<open>checkBufferForModification\<close>, which \<^verbatim>\<open>bufferActivated\<close> runs on the activated
  buffer and \<^verbatim>\<open>focusIn\<close> on the current one, by the result of the check: \<open>NoChange\<close>
  leaves the state as it is; \<open>Modified\<close> is the registry's \<^verbatim>\<open>reloadBuffer\<close>, whatever the
  buffer's save-point, and no prompt is consumed; \<open>Deleted\<close> and \<open>Restored\<close> leave the
  state as it is.
\<close>

theorem checkBufferForModification_by_case:
  assumes "map_of (buffers s) b = Some buf"
  shows "(checkForBufferStateChange buf s = NoChange \<longrightarrow>
            checkBufferForModification b s = Some (False, s) \<and> bufferActivated b s = Some s) \<and>
         (checkForBufferStateChange buf s = Modified \<longrightarrow>
            checkBufferForModification b s = map_option (Pair True) (reloadBuffer b s) \<and>
            bufferActivated b s = reloadBuffer b s \<and>
            (\<exists>s'. reloadBuffer b s = Some s' \<and> asked s' = asked s \<and> chosen s' = chosen s \<and>
                  tabs s' = tabs s \<and> calls s' = calls s @ [ReloadBuffer b])) \<and>
         (checkForBufferStateChange buf s = Deleted \<or>
          checkForBufferStateChange buf s = Restored \<longrightarrow>
            checkBufferForModification b s = Some (True, s) \<and> bufferActivated b s = Some s) \<and>
         (getCurrentBuffer s = Some b \<longrightarrow> focusIn s = bufferActivated b s)"
  using assms
  by (auto simp add: checkBufferForModification_def bufferActivated_def focusIn_def
      reloadBuffer_def split: option.splits)

theorem checkBufferForModification_by_case_witness:
  "bufferActivated 0 threeTabs = Some threeTabs \<and>
   focusIn threeTabs = Some threeTabs \<and>
   bufferActivated 1 (threeTabs\<lparr>disk := [''/b.txt'' \<mapsto> (''on disk'', 9)]\<rparr>) =
     reloadBuffer 1 (threeTabs\<lparr>disk := [''/b.txt'' \<mapsto> (''on disk'', 9)]\<rparr>) \<and>
   bufferActivated 0 (threeTabs\<lparr>disk := [''/b.txt'' \<mapsto> (''on disk'', 9)]\<rparr>) =
     Some (threeTabs\<lparr>disk := [''/b.txt'' \<mapsto> (''on disk'', 9)]\<rparr>)"
proof -
  let ?w = "threeTabs\<lparr>disk := [''/b.txt'' \<mapsto> (''on disk'', 9)]\<rparr>"
  let ?a = "fileBuffer ''/a.txt'' ''aaa'' 1"
  let ?b = "(fileBuffer ''/b.txt'' ''bbb edited'' 2)\<lparr>savePoint := False\<rparr>"
  have a: "map_of (buffers threeTabs) 0 = Some ?a" and a': "map_of (buffers ?w) 0 = Some ?a"
    and b: "map_of (buffers ?w) 1 = Some ?b"
    by (simp_all add: threeTabs_def emptyWindow_def untitled_def fileBuffer_def)
  have c: "checkForBufferStateChange ?a threeTabs = NoChange"
    "checkForBufferStateChange ?a ?w = Deleted"
    "checkForBufferStateChange ?b ?w = Modified"
    "getCurrentBuffer threeTabs = Some 0"
    by (simp_all add: threeTabs_def emptyWindow_def untitled_def fileBuffer_def
        getCurrentBuffer_def getBufferFromIndex_def currentIndex_def count_def isFile_def
        is_save_point_def checkForBufferStateChange_def)
  have "bufferActivated 0 threeTabs = Some threeTabs \<and> focusIn threeTabs = Some threeTabs"
    using checkBufferForModification_by_case [OF a] c by auto
  moreover have "bufferActivated 1 ?w = reloadBuffer 1 ?w"
    using checkBufferForModification_by_case [OF b] c by blast
  moreover have "bufferActivated 0 ?w = Some ?w"
    using checkBufferForModification_by_case [OF a'] c by blast
  ultimately show ?thesis by blast
qed

section \<open>Reload\<close>



section \<open>Batch close: Cancel\<close>

text \<open>
  C1, as amended. From a consistent window with a current tab, every batch close (close
  all, close all except active, close all to the left, to the right, window close) gets
  through its checking pass, and the pass closes nothing: the tab ordering and the
  registered buffers are the ones before it and no \<^verbatim>\<open>closeBuffer\<close> is called. Nothing is
  rolled back and nothing becomes dirty: every buffer is afterwards exactly as it was
  before, or at save-point (\<open>passFrame\<close>), and a buffer on which the pass called
  \<^verbatim>\<open>saveBuffer\<close> or \<^verbatim>\<open>saveBufferAs\<close> with a write that does not fail is at save-point. The
  state after the pass is reached by the steps of \<open>passStep\<close> only, and a buffer whose
  content differs was reloaded silently on the way: it was the dirty buffer just switched
  to, and \<^verbatim>\<open>checkForBufferStateChange\<close> found its file modified on the disk at that moment.
  If one of the prompts of the pass is answered Cancel, the pass returns false; and when
  it returns false the batch close ends in the state the pass left, so the second pass is
  never entered.
\<close>

theorem batch_close_cancel:
  assumes "consistent s" and "0 \<le> currentIndex s" and "currentIndex s < count s"
  shows "\<exists>ok s'. checkingPass op s = Some (ok, s') \<and> passFrame s s' \<and> passStep\<^sup>*\<^sup>* s s' \<and>
           ((\<exists>j. asked s \<le> j \<and> j < asked s' \<and> answers s j = Cancel) \<longrightarrow> \<not> ok) \<and>
           (\<not> ok \<longrightarrow> runBatch op s = Some s') \<and>
           (\<forall>b buf buf'. map_of (buffers s) b = Some buf \<and> map_of (buffers s') b = Some buf' \<and>
              content buf' \<noteq> content buf \<longrightarrow>
              (\<exists>t t'. passStep\<^sup>*\<^sup>* s t \<and> silentReload b t t' \<and> passStep\<^sup>*\<^sup>* t' s')) \<and>
           (\<forall>b buf buf' p. map_of (buffers s) b = Some buf \<and> map_of (buffers s') b = Some buf' \<and>
              (SaveBuffer b \<in> set (newCalls s s') \<and> fileInfo buf = Some p \<or>
               SaveBufferAs b p \<in> set (newCalls s s')) \<and> \<not> writeFails s p \<longrightarrow>
              is_save_point buf')"
proof -
  from checkingPass_frame [OF assms, of op] obtain ok s' where
    p: "checkingPass op s = Some (ok, s')" and f: "passFrame s s'"
    and c: "ok \<longrightarrow> (\<forall>j. asked s \<le> j \<and> j < asked s' \<longrightarrow> answers s j \<noteq> Cancel)"
    by blast
  have st: "passStep\<^sup>*\<^sup>* s s'" using checkingPass_steps [OF assms p] .
  have r: "\<not> ok \<longrightarrow> runBatch op s = Some s'" using p runBatch_aborts by auto
  have k: "\<forall>b buf buf'. map_of (buffers s) b = Some buf \<and> map_of (buffers s') b = Some buf' \<and>
              content buf' \<noteq> content buf \<longrightarrow>
              (\<exists>t t'. passStep\<^sup>*\<^sup>* s t \<and> silentReload b t t' \<and> passStep\<^sup>*\<^sup>* t' s')"
    using passSteps_content [OF st] by blast
  have v: "\<forall>b buf buf' p. map_of (buffers s) b = Some buf \<and> map_of (buffers s') b = Some buf' \<and>
              (SaveBuffer b \<in> set (newCalls s s') \<and> fileInfo buf = Some p \<or>
               SaveBufferAs b p \<in> set (newCalls s s')) \<and> \<not> writeFails s p \<longrightarrow>
              is_save_point buf'"
    using passSteps_saved [OF st] by blast
  have n: "(\<exists>j. asked s \<le> j \<and> j < asked s' \<and> answers s j = Cancel) \<longrightarrow> \<not> ok" using c by blast
  from p f st n r k v show ?thesis by blast
qed

theorem batch_close_cancel_witness:
  "consistent saveThenCancel \<and> 0 \<le> currentIndex saveThenCancel \<and>
   currentIndex saveThenCancel < count saveThenCancel \<and>
   answers saveThenCancel 0 = Save \<and> answers saveThenCancel 1 = Cancel \<and>
   runBatch CloseAll saveThenCancel = Some savedThenCancelled \<and>
   passFrame saveThenCancel savedThenCancelled \<and>
   passStep\<^sup>*\<^sup>* saveThenCancel savedThenCancelled \<and>
   map_of (buffers savedThenCancelled) 1 = Some (fileBuffer ''/b.txt'' ''bbb edited'' 3) \<and>
   is_save_point (fileBuffer ''/b.txt'' ''bbb edited'' 3)"
proof -
  have c: "consistent saveThenCancel"
    by (simp add: consistent_def saveThenCancel_def threeTabs_def emptyWindow_def)
  have i: "0 \<le> currentIndex saveThenCancel" "currentIndex saveThenCancel < count saveThenCancel"
    by (simp_all add: currentIndex_def count_def saveThenCancel_def threeTabs_def emptyWindow_def)
  have a: "answers saveThenCancel 0 = Save" "answers saveThenCancel 1 = Cancel"
    by (simp_all add: saveThenCancel_def threeTabs_def emptyWindow_def)
  have m: "map_of (buffers savedThenCancelled) 1 = Some (fileBuffer ''/b.txt'' ''bbb edited'' 3)"
    "is_save_point (fileBuffer ''/b.txt'' ''bbb edited'' 3)"
    by (simp_all add: savedThenCancelled_def fileBuffer_def is_save_point_def)
  have p: "checkingPass CloseAll saveThenCancel = Some (False, savedThenCancelled)"
    by (simp add: checkingPass_def checkBuffersBeforeClose.simps savedThenCancelled_def
        saveThenCancel_def threeTabs_def emptyWindow_def
        untitled_def fileBuffer_def getBufferFromIndex_def count_def is_save_point_def isFile_def
        switchToIndex_def bufferSwitched_def bufferActivated_def checkBufferForModification_def
        checkForBufferStateChange_def saveFile_def saveBuffer_def)
  from batch_close_cancel [OF c i, of CloseAll] p
  have "runBatch CloseAll saveThenCancel = Some savedThenCancelled \<and>
        passFrame saveThenCancel savedThenCancelled \<and>
        passStep\<^sup>*\<^sup>* saveThenCancel savedThenCancelled"
    by auto
  with c i a m show ?thesis by blast
qed

text \<open>
  C1 as stated fails in "with its content unmodified": the pass switches to the dirty
  buffer before it asks, the switch activates the buffer, and a buffer whose file was
  modified on the disk is reloaded there without a prompt. Close all on the three tabs,
  answered Cancel: the edits of \<^verbatim>\<open>/b.txt\<close> are gone.
\<close>

theorem batch_close_cancel_counterexample:
  "answers threeTabsModified (asked threeTabsModified) = Cancel \<and>
   map_of (buffers threeTabsModified) 1 =
     Some ((fileBuffer ''/b.txt'' ''bbb edited'' 2)\<lparr>savePoint := False\<rparr>) \<and>
   closeAllFiles False threeTabsModified =
     Some (threeTabsModified
            \<lparr>buffers := [(0, fileBuffer ''/a.txt'' ''aaa'' 1),
                         (1, fileBuffer ''/b.txt'' ''on disk'' 9),
                         (2, (untitled ''New 1'')\<lparr>savePoint := False, content := ''ccc''\<rparr>)],
             cur := 1, asked := 1, calls := [ReloadBuffer 1]\<rparr>)"
  by (simp add: threeTabsModified_def threeTabs_def emptyWindow_def untitled_def fileBuffer_def
      getBufferFromIndex_def count_def is_save_point_def closeAllFiles_def checkBuffersBeforeClose.simps switchToIndex_def
      bufferSwitched_def bufferActivated_def checkBufferForModification_def
      checkForBufferStateChange_def reloadBuffer_def)

section \<open>Batch close: a dismissed Save-As\<close>

text \<open>
  C2. In a checking pass over \<open>start\<close> to \<open>e\<close> whose first dirty buffer, at index \<open>i\<close>,
  is not file-backed: when the prompt is answered Save and the file chooser is dismissed
  (the empty file name), \<^verbatim>\<open>saveFile\<close> goes through \<^verbatim>\<open>saveCurrentFileAsDialog\<close> and returns
  false, and the pass returns false in a state that differs from the one before it only
  in the current index and the two consumed answers. The answer Cancel gives the same
  result and the same state but for the file chooser's answer, which it does not consume.
  Every batch close whose pass this is ends there, with nothing closed.
\<close>

theorem save_as_dismissed_aborts_batch:
  assumes "consistent s" and "start \<le> i" and "i < e"
    and "\<forall>j. start \<le> j \<and> j < i \<longrightarrow>
           (\<exists>c bufc. getBufferFromIndex j s = Some c \<and> map_of (buffers s) c = Some bufc \<and>
                     is_save_point bufc)"
    and "getBufferFromIndex i s = Some b" and "map_of (buffers s) b = Some buf"
    and "\<not> is_save_point buf" and "\<not> isFile buf"
    and "answers s (asked s) = Save" and "fileNames s (chosen s) = []"
  shows "saveFile b (s\<lparr>cur := i, asked := asked s + 1\<rparr>) =
           Some (False, s\<lparr>cur := i, asked := asked s + 1, chosen := chosen s + 1\<rparr>) \<and>
         checkBuffersBeforeClose start e s =
           Some (False, s\<lparr>cur := i, asked := asked s + 1, chosen := chosen s + 1\<rparr>) \<and>
         checkBuffersBeforeClose start e (s\<lparr>answers := (answers s)(asked s := Cancel)\<rparr>) =
           Some (False, s\<lparr>answers := (answers s)(asked s := Cancel), cur := i,
                          asked := asked s + 1\<rparr>) \<and>
         (start = 0 \<and> e = count s \<longrightarrow>
            runBatch CloseAll s = Some (s\<lparr>cur := i, asked := asked s + 1, chosen := chosen s + 1\<rparr>) \<and>
            runBatch WindowClose s = Some (s\<lparr>cur := i, asked := asked s + 1, chosen := chosen s + 1\<rparr>)) \<and>
         (start = 0 \<and> e = currentIndex s \<longrightarrow>
            runBatch CloseAllToLeft s = Some (s\<lparr>cur := i, asked := asked s + 1, chosen := chosen s + 1\<rparr>) \<and>
            runBatch CloseAllExceptActive s =
              Some (s\<lparr>cur := i, asked := asked s + 1, chosen := chosen s + 1\<rparr>)) \<and>
         (start = currentIndex s \<and> e = count s \<longrightarrow>
            runBatch CloseAllToRight s = Some (s\<lparr>cur := i, asked := asked s + 1, chosen := chosen s + 1\<rparr>))"
proof -
  let ?s2 = "s\<lparr>cur := i, asked := asked s + 1\<rparr>"
  let ?s3 = "s\<lparr>cur := i, asked := asked s + 1, chosen := chosen s + 1\<rparr>"
  have d: "distinct (tabs s)" using assms(1) by (simp add: consistent_def)
  have g2: "getBufferFromIndex i ?s2 = Some b"
    using assms(5) getBufferFromIndex_sameTabs [of ?s2 s i] by simp
  have m2: "map_of (buffers ?s2) b = Some buf" using assms(6) by simp
  have "getIndexFromBuffer b ?s2 = i"
    using getBufferFromIndex_indexOf [of ?s2 i b] d g2 by simp
  then have "switchToBuffer b ?s2 = switchToIndex i ?s2" by (simp add: switchToBuffer_def)
  also have "\<dots> = Some (?s2\<lparr>cur := i\<rparr>)" using switchToIndex_untitled [OF g2 m2 assms(8)] .
  finally have sb: "switchToBuffer b ?s2 = Some ?s2" by simp
  have "getCurrentBuffer ?s2 = Some b" using g2 by (simp add: getCurrentBuffer_def currentIndex_def)
  then have dlg: "saveCurrentFileAsDialog ?s2 = Some (False, ?s3)"
    using m2 assms(10) by (simp add: saveCurrentFileAsDialog_def)
  have sf: "saveFile b ?s2 = Some (False, ?s3)"
    using m2 assms(7,8) sb dlg by (simp add: saveFile_def)
  have sw: "switchToIndex i s = Some (s\<lparr>cur := i\<rparr>)"
    using switchToIndex_untitled [OF assms(5,6,8)] .
  have "checkBuffersBeforeClose i e s = (if False then checkBuffersBeforeClose (i + 1) e ?s3 else Some (False, ?s3))"
    using check_save [OF assms(3,5,6,7) sw, of False ?s3] assms(9) sf by simp
  then have ci: "checkBuffersBeforeClose i e s = Some (False, ?s3)" by simp
  have le: "i \<le> e" using assms(3) by simp
  have cs: "checkBuffersBeforeClose start e s = Some (False, ?s3)"
    using check_skip_clean [OF assms(2) le assms(4)] ci by simp
  let ?c = "s\<lparr>answers := (answers s)(asked s := Cancel)\<rparr>"
  have gc: "getBufferFromIndex i ?c = Some b"
    using assms(5) getBufferFromIndex_sameTabs [of ?c s i] by simp
  have mc: "map_of (buffers ?c) b = Some buf" using assms(6) by simp
  have swc: "switchToIndex i ?c = Some (?c\<lparr>cur := i\<rparr>)"
    using switchToIndex_untitled [OF gc mc assms(8)] .
  have "checkBuffersBeforeClose i e ?c = Some (False, ?c\<lparr>cur := i\<rparr>\<lparr>asked := asked (?c\<lparr>cur := i\<rparr>) + 1\<rparr>)"
    using check_cancel [OF assms(3) gc mc assms(7) swc] by simp
  then have cic: "checkBuffersBeforeClose i e ?c = Some (False, ?c\<lparr>cur := i, asked := asked s + 1\<rparr>)"
    by simp
  have "\<forall>j. start \<le> j \<and> j < i \<longrightarrow>
           (\<exists>c bufc. getBufferFromIndex j ?c = Some c \<and> map_of (buffers ?c) c = Some bufc \<and>
                     is_save_point bufc)"
    using assms(4) getBufferFromIndex_sameTabs [of ?c s] by simp
  from check_skip_clean [OF assms(2) le this] cic
  have cc: "checkBuffersBeforeClose start e ?c = Some (False, ?c\<lparr>cur := i, asked := asked s + 1\<rparr>)"
    by simp
  have b1: "start = 0 \<and> e = count s \<longrightarrow>
            runBatch CloseAll s = Some ?s3 \<and> runBatch WindowClose s = Some ?s3"
    using cs runBatch_aborts [of CloseAll s ?s3] runBatch_aborts [of WindowClose s ?s3]
    by (auto simp add: checkingPass_def)
  have b2: "start = 0 \<and> e = currentIndex s \<longrightarrow>
            runBatch CloseAllToLeft s = Some ?s3 \<and> runBatch CloseAllExceptActive s = Some ?s3"
    using cs runBatch_aborts [of CloseAllToLeft s ?s3] runBatch_aborts [of CloseAllExceptActive s ?s3]
    by (auto simp add: checkingPass_def)
  have b3: "start = currentIndex s \<and> e = count s \<longrightarrow> runBatch CloseAllToRight s = Some ?s3"
    using cs runBatch_aborts [of CloseAllToRight s ?s3]
    by (auto simp add: checkingPass_def)
  from sf cs cc b1 b2 b3 show ?thesis by blast
qed

theorem save_as_dismissed_aborts_batch_witness:
  "consistent savingTabs \<and> getBufferFromIndex 2 savingTabs = Some 2 \<and>
   answers savingTabs (asked savingTabs) = Save \<and>
   fileNames savingTabs (chosen savingTabs) = [] \<and>
   checkBuffersBeforeClose 2 3 savingTabs =
     Some (False, savingTabs\<lparr>cur := 2, asked := asked savingTabs + 1,
                             chosen := chosen savingTabs + 1\<rparr>) \<and>
   runBatch CloseAllToRight savingTabs =
     Some (savingTabs\<lparr>cur := 2, asked := asked savingTabs + 1,
                      chosen := chosen savingTabs + 1\<rparr>)"
proof -
  let ?c = "(untitled ''New 1'')\<lparr>savePoint := False, content := ''ccc''\<rparr>"
  have c: "consistent savingTabs"
    by (simp add: consistent_def savingTabs_def threeTabs_def emptyWindow_def)
  have g: "getBufferFromIndex 2 savingTabs = Some 2"
    and m: "map_of (buffers savingTabs) 2 = Some ?c"
    and d: "\<not> is_save_point ?c" "\<not> isFile ?c"
    and a: "answers savingTabs (asked savingTabs) = Save"
      "fileNames savingTabs (chosen savingTabs) = []"
    and n: "2 = currentIndex savingTabs \<and> 3 = count savingTabs"
    by (simp_all add: savingTabs_def threeTabs_def emptyWindow_def untitled_def
        getBufferFromIndex_def count_def currentIndex_def is_save_point_def isFile_def)
  have p: "\<forall>j. (2::int) \<le> j \<and> j < 2 \<longrightarrow>
           (\<exists>c bufc. getBufferFromIndex j savingTabs = Some c \<and>
                     map_of (buffers savingTabs) c = Some bufc \<and> is_save_point bufc)"
    by auto
  have le: "(2::int) \<le> 2" "(2::int) < 3" by simp_all
  from save_as_dismissed_aborts_batch [OF c le p g m d a] n c g a
  show ?thesis by blast
qed

section \<open>Opening a path that is already open\<close>

text \<open>
  C4. In a consistent window, opening a list of paths that are all open already
  (\<^verbatim>\<open>openFileList\<close>; \<^verbatim>\<open>openFile\<close> is the list of one path) creates no buffer: the tab
  ordering and the registered buffers are the same afterwards, the buffer of the last path
  is the current one, and the path index is unchanged, so that opening the same paths
  once more gives the same set of open buffers again.
\<close>

theorem open_already_open:
  assumes "consistent s" and "ps \<noteq> []"
    and "\<forall>p \<in> set ps. getBufferByFilePath p s \<noteq> None"
    and "getBufferByFilePath (last ps) s = Some b"
  shows "\<exists>s'. openFileList ps s = Some s' \<and>
              tabs s' = tabs s \<and> map fst (buffers s') = map fst (buffers s) \<and>
              getCurrentBuffer s' = Some b \<and>
              (\<forall>p. getBufferByFilePath p s' = getBufferByFilePath p s) \<and>
              (\<exists>s''. openFileList ps s' = Some s'' \<and> tabs s'' = tabs s \<and>
                     map fst (buffers s'') = map fst (buffers s) \<and>
                     getCurrentBuffer s'' = Some b) \<and>
              (ps = [last ps] \<longrightarrow> openFile (last ps) s = Some s')"
proof -
  from openFileList_open_step [OF assms] obtain s' where
    o: "openFileList ps s = Some s'" and ts: "tabs s' = tabs s"
    and ks: "map fst (buffers s') = map fst (buffers s)" and g: "getCurrentBuffer s' = Some b"
    and c: "consistent s'" and sp: "samePaths s s'"
    by blast
  have p: "\<forall>p. getBufferByFilePath p s' = getBufferByFilePath p s"
    using getBufferByFilePath_samePaths [OF sp] by simp
  with assms(3,4) have "\<forall>p \<in> set ps. getBufferByFilePath p s' \<noteq> None"
    and "getBufferByFilePath (last ps) s' = Some b" by simp_all
  from openFileList_open_step [OF c assms(2) this] ts ks
  have "\<exists>s''. openFileList ps s' = Some s'' \<and> tabs s'' = tabs s \<and>
              map fst (buffers s'') = map fst (buffers s) \<and> getCurrentBuffer s'' = Some b"
    by auto
  moreover have "ps = [last ps] \<longrightarrow> openFile (last ps) s = Some s'"
    using o by (auto simp add: openFile_def)
  ultimately show ?thesis using o ts ks g p by blast
qed

theorem open_already_open_witness:
  "consistent threeTabs \<and>
   getBufferByFilePath ''/a.txt'' threeTabs = Some 0 \<and>
   getBufferByFilePath ''/b.txt'' threeTabs = Some 1 \<and>
   (\<exists>s'. openFileList [''/a.txt'', ''/b.txt''] threeTabs = Some s' \<and>
         tabs s' = tabs threeTabs \<and> map fst (buffers s') = map fst (buffers threeTabs) \<and>
         getCurrentBuffer s' = Some 1) \<and>
   (\<exists>s'. openFile ''/a.txt'' threeTabs = Some s' \<and> tabs s' = tabs threeTabs \<and>
         getCurrentBuffer s' = Some 0)"
proof -
  have c: "consistent threeTabs"
    by (simp add: consistent_def threeTabs_def emptyWindow_def)
  have a: "getBufferByFilePath ''/a.txt'' threeTabs = Some 0"
    and b: "getBufferByFilePath ''/b.txt'' threeTabs = Some 1"
    by (simp_all add: getBufferByFilePath_def threeTabs_def emptyWindow_def fileBuffer_def
        untitled_def)
  have n: "[''/a.txt'', ''/b.txt''] \<noteq> []" "[''/a.txt''] \<noteq> []" by simp_all
  have all: "\<forall>p \<in> set [''/a.txt'', ''/b.txt'']. getBufferByFilePath p threeTabs \<noteq> None"
    and all1: "\<forall>p \<in> set [''/a.txt'']. getBufferByFilePath p threeTabs \<noteq> None"
    using a b by simp_all
  have l: "getBufferByFilePath (last [''/a.txt'', ''/b.txt'']) threeTabs = Some 1"
    and l1: "getBufferByFilePath (last [''/a.txt'']) threeTabs = Some 0"
    using a b by simp_all
  from open_already_open [OF c n(1) all l]
  have "\<exists>s'. openFileList [''/a.txt'', ''/b.txt''] threeTabs = Some s' \<and>
         tabs s' = tabs threeTabs \<and> map fst (buffers s') = map fst (buffers threeTabs) \<and>
         getCurrentBuffer s' = Some 1"
    by blast
  moreover from open_already_open [OF c n(2) all1 l1]
  have "\<exists>s'. openFile ''/a.txt'' threeTabs = Some s' \<and> tabs s' = tabs threeTabs \<and>
         getCurrentBuffer s' = Some 0"
    by auto
  ultimately show ?thesis using c a b by blast
qed

section \<open>Renaming onto an open path\<close>

text \<open>
  C7. In a consistent window with unique paths, renaming the current, file-backed buffer
  \<open>b\<close> to a path \<open>p\<close> that another buffer \<open>other\<close> has open: if the rename succeeds,
  \<^verbatim>\<open>renameFile\<close> closes \<open>other\<close> (it leaves the tab ordering and the registry), \<open>b\<close> is the
  one buffer with path \<open>p\<close>, and the paths are unique again; if the rename fails, the
  state changes only in the consumed file name and the recorded call, so \<open>other\<close> stays
  open.
\<close>

theorem rename_onto_open_path:
  assumes "consistent s" and "uniquePaths s"
    and "getCurrentBuffer s = Some b" and "map_of (buffers s) b = Some buf" and "isFile buf"
    and "fileNames s (chosen s) = p" and "p \<noteq> []"
    and "getBufferByFilePath p s = Some other" and "other \<noteq> b"
  shows "(\<not> writeFails s p \<longrightarrow>
            (\<exists>s'. renameFile s = Some s' \<and>
                  other \<notin> set (tabs s') \<and> map_of (buffers s') other = None \<and>
                  tabs s' = remove1 other (tabs s) \<and>
                  getBufferByFilePath p s' = Some b \<and>
                  (\<forall>e \<in> set (buffers s'). fileInfo (snd e) = Some p \<longrightarrow> fst e = b) \<and>
                  uniquePaths s' \<and> consistent s')) \<and>
         (writeFails s p \<longrightarrow>
            renameFile s = Some (s\<lparr>chosen := chosen s + 1,
                                   calls := calls s @ [RenameBuffer b p]\<rparr>))"
proof (intro conjI impI)
  let ?s1 = "s\<lparr>chosen := chosen s + 1\<rparr>"
  have ob: "getBufferByFilePath p ?s1 = Some other"
    using assms(8) by (simp add: getBufferByFilePath_def)
  {
    assume wf: "writeFails s p"
    then have "renameBuffer b p ?s1 = Some (False, ?s1\<lparr>calls := calls s @ [RenameBuffer b p]\<rparr>)"
      using assms(4) by (simp add: renameBuffer_def)
    then show "renameFile s = Some (s\<lparr>chosen := chosen s + 1,
                                   calls := calls s @ [RenameBuffer b p]\<rparr>)"
      using assms(3,4,5,6,7) ob by (simp add: renameFile_def Let_def)
  }
  {
    assume ok: "\<not> writeFails s p"
    let ?buf' = "buf\<lparr>fileInfo := Some p, savePoint := True, modifiedTime := Some (clock s)\<rparr>"
    from assms(5) obtain old where old: "fileInfo buf = Some old"
      by (auto simp add: isFile_def)
    let ?d = "((disk s)(old := None))(p \<mapsto> (content buf, clock s))"
    let ?s2 = "?s1\<lparr>buffers := AList.update b ?buf' (buffers s), disk := ?d,
                   clock := clock s + 1, calls := calls s @ [RenameBuffer b p]\<rparr>"
    have rn: "renameBuffer b p ?s1 = Some (True, ?s2)"
      using ok assms(4) old by (simp add: renameBuffer_def)
    from getBufferByFilePath_Some [OF assms(8)] obtain obuf where
      oe: "(other, obuf) \<in> set (buffers s)" and op: "fileInfo obuf = Some p" by blast
    from assms(1) have dk: "distinct (map fst (buffers s))" and dt: "distinct (tabs s)"
      and st: "set (tabs s) = set (map fst (buffers s))"
      and np: "\<forall>k \<in> set (map fst (buffers s)). k < nextPtr s"
      by (simp_all add: consistent_def)
    from oe dk have om: "map_of (buffers s) other = Some obuf" by simp
    from oe st have ot: "other \<in> set (tabs s)" by force
    have om2: "map_of (buffers ?s2) other = Some obuf"
      using om assms(9) by (simp add: update_conv')
    let ?s3 = "?s2\<lparr>buffers := AList.delete other (buffers ?s2),
                   calls := calls ?s2 @ [CloseBuffer other]\<rparr>"
    have cb: "closeBuffer other ?s2 = removeBuffer other ?s3"
      using om2 by (simp add: closeBuffer_def)
    have g3: "getCurrentBuffer ?s3 = Some b"
      using assms(3) getCurrentBuffer_cong [of ?s3 s] by simp
    have ot3: "other \<in> set (tabs ?s3)" using ot by simp
    from current_index_of [OF g3 ot3 assms(9)]
    have k: "getIndexFromBuffer other ?s3 \<noteq> cur ?s3" and bm: "b \<in> set (remove1 other (tabs s))"
      by simp_all
    from bm have ne: "remove1 other (tabs ?s3) \<noteq> []" by auto
    define s' where "s' = s\<lparr>chosen := chosen s + 1,
        buffers := AList.delete other (AList.update b ?buf' (buffers s)),
        disk := ?d, clock := clock s + 1,
        calls := calls s @ [RenameBuffer b p, CloseBuffer other],
        tabs := remove1 other (tabs s),
        cur := (if getIndexFromBuffer other s < cur s then cur s - 1 else cur s)\<rparr>"
    from removeBuffer_not_current [OF ot3 k ne] have rb: "removeBuffer other ?s3 = Some s'"
      by (simp add: s'_def getIndexFromBuffer_def)
    have rf: "renameFile s = Some s'"
      using assms(3,4,5,6,7) ob rn cb rb by (simp add: renameFile_def Let_def)
    have bs: "buffers s' = AList.delete other (AList.update b ?buf' (buffers s))"
      and t3: "tabs s' = remove1 other (tabs s)" and n3: "nextPtr s' = nextPtr s"
      by (simp_all add: s'_def)
    have mem: "\<And>e. e \<in> set (buffers s') \<longleftrightarrow>
                 fst e \<noteq> other \<and> (if fst e = b then snd e = ?buf' else e \<in> set (buffers s))"
      unfolding bs using mem_delete_update [OF dk] by blast
    have t1: "other \<notin> set (tabs s')" unfolding t3 using dt by simp
    have t2: "map_of (buffers s') other = None" unfolding bs by (simp add: delete_conv')
    have one: "\<forall>e \<in> set (buffers s'). fileInfo (snd e) = Some p \<longrightarrow> fst e = b"
    proof (intro ballI impI)
      fix e assume e: "e \<in> set (buffers s')" and f: "fileInfo (snd e) = Some p"
      show "fst e = b"
      proof (rule ccontr)
        assume nb: "fst e \<noteq> b"
        with e mem have ein: "e \<in> set (buffers s)" and neo: "fst e \<noteq> other" by auto
        have "fileInfo (snd e) \<noteq> None \<and> fileInfo (snd e) = fileInfo (snd (other, obuf))"
          using f op by simp
        with assms(2) ein oe have "fst e = fst (other, obuf)"
          unfolding uniquePaths_def by blast
        with neo show False by simp
      qed
    qed
    have bin: "(b, ?buf') \<in> set (buffers s')" using mem [of "(b, ?buf')"] assms(9) by simp
    have gp: "getBufferByFilePath p s' = Some b"
    proof (cases "find (\<lambda>e. fileInfo (snd e) = Some p) (buffers s')")
      case None
      then have "\<not> (\<exists>e. e \<in> set (buffers s') \<and> fileInfo (snd e) = Some p)"
        unfolding find_None_iff .
      moreover have "fileInfo (snd (b, ?buf')) = Some p" by simp
      ultimately show ?thesis using bin by blast
    next
      case (Some e)
      then have "e \<in> set (buffers s')" and "fileInfo (snd e) = Some p"
        by (auto simp add: find_Some_iff)
      with one have "fst e = b" by blast
      with Some show ?thesis by (simp add: getBufferByFilePath_def)
    qed
    have up: "uniquePaths s'"
      unfolding uniquePaths_def
    proof (intro ballI impI)
      fix e1 e2
      assume e1: "e1 \<in> set (buffers s')" and e2: "e2 \<in> set (buffers s')"
        and f: "fileInfo (snd e1) \<noteq> None \<and> fileInfo (snd e1) = fileInfo (snd e2)"
      show "fst e1 = fst e2"
      proof (cases "fileInfo (snd e1) = Some p")
        case True
        with one e1 e2 f show ?thesis by simp
      next
        case False
        with e1 e2 f mem have "e1 \<in> set (buffers s)" and "e2 \<in> set (buffers s)"
          by (auto split: if_splits)
        with assms(2) f show ?thesis unfolding uniquePaths_def by blast
      qed
    qed
    have bk: "b \<in> set (map fst (buffers s))"
      using assms(4) by (metis map_of_eq_None_iff option.distinct(1) set_map)
    have keys: "map fst (buffers s') = removeAll other (map fst (buffers s))"
      unfolding bs using bk by (simp add: delete_keys update_keys)
    have c1: "distinct (map fst (buffers s'))" unfolding keys using dk by (rule distinct_removeAll)
    have c2: "distinct (tabs s')" unfolding t3 using dt by (rule distinct_remove1)
    have c3: "set (tabs s') = set (map fst (buffers s'))"
      unfolding keys t3 using dt st by simp
    have c4: "\<forall>k \<in> set (map fst (buffers s')). k < nextPtr s'"
      unfolding keys n3 using np by auto
    have co: "consistent s'"
      unfolding consistent_def using c1 c2 c3 c4 by blast
    from rf t1 t2 t3 gp one up co
    show "\<exists>s'. renameFile s = Some s' \<and>
                  other \<notin> set (tabs s') \<and> map_of (buffers s') other = None \<and>
                  tabs s' = remove1 other (tabs s) \<and>
                  getBufferByFilePath p s' = Some b \<and>
                  (\<forall>e \<in> set (buffers s'). fileInfo (snd e) = Some p \<longrightarrow> fst e = b) \<and>
                  uniquePaths s' \<and> consistent s'"
      by blast
  }
qed

theorem rename_onto_open_path_witness:
  "consistent renamingTabs \<and> uniquePaths renamingTabs \<and>
   getCurrentBuffer renamingTabs = Some 0 \<and>
   getBufferByFilePath ''/b.txt'' renamingTabs = Some 1 \<and>
   \<not> writeFails renamingTabs ''/b.txt'' \<and>
   (\<exists>s'. renameFile renamingTabs = Some s' \<and> tabs s' = [0, 2] \<and>
         map_of (buffers s') 1 = None \<and> getBufferByFilePath ''/b.txt'' s' = Some 0 \<and>
         uniquePaths s')"
proof -
  let ?a = "fileBuffer ''/a.txt'' ''aaa'' 1"
  have c: "consistent renamingTabs"
    by (simp add: consistent_def renamingTabs_def threeTabs_def emptyWindow_def)
  have u: "uniquePaths renamingTabs"
    by (simp add: uniquePaths_def renamingTabs_def threeTabs_def emptyWindow_def fileBuffer_def
        untitled_def)
  have g: "getCurrentBuffer renamingTabs = Some 0"
    and m: "map_of (buffers renamingTabs) 0 = Some ?a" and f: "isFile ?a"
    and n: "fileNames renamingTabs (chosen renamingTabs) = ''/b.txt''" "''/b.txt'' \<noteq> []"
    and o: "getBufferByFilePath ''/b.txt'' renamingTabs = Some 1" "(1::nat) \<noteq> 0"
    and w: "\<not> writeFails renamingTabs ''/b.txt''"
    and t: "remove1 1 (tabs renamingTabs) = [0, 2]"
    by (simp_all add: renamingTabs_def threeTabs_def emptyWindow_def fileBuffer_def untitled_def
        getCurrentBuffer_def currentIndex_def getBufferFromIndex_def count_def isFile_def
        getBufferByFilePath_def)
  from rename_onto_open_path [OF c u g m f n o] w t c u g o(1)
  show ?thesis by auto
qed

section \<open>At least one open buffer\<close>

text \<open>
  C9. With the recovery connected (\<open>connAllClosed\<close>): closing the only buffer of a
  consistent window ends with exactly one buffer, fresh, untitled, at save-point, empty and
  named "New" with the counter's numeral; every user operation outside the window close
  that starts with a buffer open and completes ends with a buffer open (\<open>nonEmpty\<close>);
  and a close all whose checking pass succeeds completes with the one fresh buffer. In the
  window close, whose checking pass succeeds, the recovery is disconnected and
  \<^verbatim>\<open>closeEvent\<close> ends with no tab and no buffer.
\<close>

theorem at_least_one_buffer:
  "(consistent s \<and> connAllClosed s \<and> tabs s = [b] \<longrightarrow>
      closeBuffer b s =
        Some (s\<lparr>buffers := [(nextPtr s, untitled (''New '' @ decimal (newCount s)))],
                nextPtr := nextPtr s + 1, tabs := [nextPtr s], cur := 0,
                newCount := newCount s + 1,
                calls := calls s @ [CloseBuffer b,
                                    CreateEmptyBuffer (''New '' @ decimal (newCount s))]\<rparr>)) \<and>
   (nonEmpty s \<and> op \<noteq> BatchClose WindowClose \<and> perform op s = Some s' \<longrightarrow> nonEmpty s') \<and>
   (consistent s \<and> connAllClosed s \<and> tabs s \<noteq> [] \<and>
    checkBuffersBeforeClose 0 (count s) s = Some (True, s1) \<longrightarrow>
      (\<exists>t. closeAllFiles False s = Some t \<and> tabs t = [nextPtr s] \<and>
            buffers t = [(nextPtr s, untitled (''New '' @ decimal (newCount s)))])) \<and>
   (consistent s \<and> checkBuffersBeforeClose 0 (count s) s = Some (True, s1) \<longrightarrow>
      (\<exists>t. closeEvent s = Some (True, t) \<and> tabs t = [] \<and> buffers t = []))"
  using closeBuffer_last_recovers [of s b] perform_nonEmpty [of op s s']
    closeAllFiles_recovers [of s s1] closeEvent_closes_all [of s s1]
  by blast

theorem at_least_one_buffer_witness:
  "consistent discardingTabs \<and> nonEmpty discardingTabs \<and>
   checkBuffersBeforeClose 0 (count discardingTabs) discardingTabs =
     Some (True, discardingTabs\<lparr>cur := 2, asked := 2\<rparr>) \<and>
   (\<exists>t. closeAllFiles False discardingTabs = Some t \<and> tabs t = [3] \<and>
         buffers t = [(3, untitled ''New 2'')]) \<and>
   (\<exists>t. closeEvent discardingTabs = Some (True, t) \<and> tabs t = [] \<and> buffers t = []) \<and>
   (\<exists>t. perform (BatchClose CloseAll) discardingTabs = Some t \<and> nonEmpty t) \<and>
   consistent initialWindow \<and>
   closeBuffer 0 (initialWindow\<lparr>buffers := [(0, fileBuffer ''/a.txt'' ''aaa'' 1)]\<rparr>) =
     Some (initialWindow\<lparr>buffers := [(1, untitled ''New 2'')], nextPtr := 2, tabs := [1],
             cur := 0, newCount := 3,
             calls := [CloseBuffer 0, CreateEmptyBuffer ''New 2'']\<rparr>)"
proof -
  have c: "consistent discardingTabs"
    by (simp add: consistent_def discardingTabs_def threeTabs_def emptyWindow_def)
  have n: "nonEmpty discardingTabs" and ca: "connAllClosed discardingTabs"
    and ne: "tabs discardingTabs \<noteq> []"
    and v: "nextPtr discardingTabs = 3" "''New '' @ decimal (newCount discardingTabs) = ''New 2''"
    by (simp_all add: nonEmpty_def discardingTabs_def threeTabs_def emptyWindow_def decimal.simps)
  have p: "checkBuffersBeforeClose 0 (count discardingTabs) discardingTabs =
     Some (True, discardingTabs\<lparr>cur := 2, asked := 2\<rparr>)"
    by (simp add: checkBuffersBeforeClose.simps discardingTabs_def threeTabs_def emptyWindow_def
        untitled_def fileBuffer_def getBufferFromIndex_def count_def is_save_point_def
        switchToIndex_def bufferSwitched_def bufferActivated_def checkBufferForModification_def
        checkForBufferStateChange_def)
  note t = at_least_one_buffer [of discardingTabs _ _ _ "discardingTabs\<lparr>cur := 2, asked := 2\<rparr>"]
  from t c ca ne p v
  have all: "\<exists>t. closeAllFiles False discardingTabs = Some t \<and> tabs t = [3] \<and>
         buffers t = [(3, untitled ''New 2'')]"
    by simp
  from t c p have ev: "\<exists>t. closeEvent discardingTabs = Some (True, t) \<and> tabs t = [] \<and> buffers t = []"
    by blast
  from all obtain u where u: "perform (BatchClose CloseAll) discardingTabs = Some u"
    by (auto simp add: perform_def runBatch_def)
  have "BatchClose CloseAll \<noteq> BatchClose WindowClose" by simp
  with at_least_one_buffer [of discardingTabs _ "BatchClose CloseAll" u] n u
  have pf: "\<exists>t. perform (BatchClose CloseAll) discardingTabs = Some t \<and> nonEmpty t"
    by blast
  let ?w = "initialWindow\<lparr>buffers := [(0, fileBuffer ''/a.txt'' ''aaa'' 1)]\<rparr>"
  have ci: "consistent initialWindow" and cw: "consistent ?w" and cw2: "connAllClosed ?w"
    and tw: "tabs ?w = [0]"
    by (simp_all add: consistent_def initialWindow_def emptyWindow_def)
  have vw: "Some (?w\<lparr>buffers := [(nextPtr ?w, untitled (''New '' @ decimal (newCount ?w)))],
                nextPtr := nextPtr ?w + 1, tabs := [nextPtr ?w], cur := 0,
                newCount := newCount ?w + 1,
                calls := calls ?w @ [CloseBuffer 0,
                                    CreateEmptyBuffer (''New '' @ decimal (newCount ?w))]\<rparr>) =
      Some (initialWindow\<lparr>buffers := [(1, untitled ''New 2'')], nextPtr := 2, tabs := [1],
             cur := 0, newCount := 3,
             calls := [CloseBuffer 0, CreateEmptyBuffer ''New 2'']\<rparr>)"
    by (simp add: initialWindow_def emptyWindow_def decimal.simps)
  from at_least_one_buffer [of ?w 0] cw cw2 tw
  have "closeBuffer 0 ?w =
        Some (?w\<lparr>buffers := [(nextPtr ?w, untitled (''New '' @ decimal (newCount ?w)))],
                nextPtr := nextPtr ?w + 1, tabs := [nextPtr ?w], cur := 0,
                newCount := newCount ?w + 1,
                calls := calls ?w @ [CloseBuffer 0,
                                    CreateEmptyBuffer (''New '' @ decimal (newCount ?w))]\<rparr>)"
    by blast
  then have rec: "closeBuffer 0 ?w =
     Some (initialWindow\<lparr>buffers := [(1, untitled ''New 2'')], nextPtr := 2, tabs := [1],
             cur := 0, newCount := 3,
             calls := [CloseBuffer 0, CreateEmptyBuffer ''New 2'']\<rparr>)"
    unfolding vw .
  from c n p all ev pf ci rec show ?thesis by blast
qed

section \<open>The placeholder after opening files\<close>

text \<open>
  C10 at a failing input. From the initial window, \<^verbatim>\<open>openFileList\<close> on \<^verbatim>\<open>/a.txt\<close> and then
  \<^verbatim>\<open>/b.txt\<close>, where \<^verbatim>\<open>/b.txt\<close> cannot be read: \<^verbatim>\<open>/a.txt\<close> is opened, the null result for
  \<^verbatim>\<open>/b.txt\<close> overwrites \<open>mostRecentBuffer\<close> (line 854), nothing is switched to and the
  untitled placeholder stays open beside \<^verbatim>\<open>/a.txt\<close>. With the two paths in the other order
  the placeholder is closed.
\<close>

theorem openFileList_placeholder_lingers:
  "isInInitialState unreadableWindow = Some True \<and>
   openFileList [''/a.txt'', ''/b.txt''] unreadableWindow =
     Some (unreadableWindow
            \<lparr>buffers := [(0, untitled ''New 1''), (1, fileBuffer ''/a.txt'' ''aaa'' 1)],
             nextPtr := 2, tabs := [0, 1],
             calls := [CreateBufferFromFile ''/a.txt'', CreateBufferFromFile ''/b.txt'']\<rparr>) \<and>
   openFileList [''/b.txt'', ''/a.txt''] unreadableWindow =
     Some (unreadableWindow
            \<lparr>buffers := [(1, fileBuffer ''/a.txt'' ''aaa'' 1)],
             nextPtr := 2, tabs := [1], cur := 0,
             calls := [CreateBufferFromFile ''/b.txt'', CreateBufferFromFile ''/a.txt'',
                       CloseBuffer 0]\<rparr>)"
  by (simp add: openFileList_def isInInitialState_def getBufferFromIndex_def count_def
      isFile_def is_save_point_def unreadableWindow_def initialWindow_def emptyWindow_def
      untitled_def fileBuffer_def getBufferByFilePath_def createBufferFromFile_def addBuffer_def
      switchToBuffer_def getIndexFromBuffer_def switchToIndex_def bufferSwitched_def
      bufferActivated_def checkBufferForModification_def checkForBufferStateChange_def
      closeFile_def closeBuffer_def removeBuffer_def Let_def allBuffersClosed_def)

end
